theory Spec2Isabelle
  imports Main "HOL-Library.Word"
begin

unbundle bit_operations_syntax

section \<open>Machine integers and helper macros\<close>

text \<open>
  The driver is built for arm64 (\<^verbatim>\<open>KERNEL=kernel8\<close>, \<^verbatim>\<open>ARCH=arm64\<close> in
  \<^verbatim>\<open>compile.sh\<close>), so \<^verbatim>\<open>unsigned long\<close> and \<^verbatim>\<open>u64\<close> are 64-bit words and
  \<^verbatim>\<open>u32\<close>, \<^verbatim>\<open>unsigned int\<close> and \<^verbatim>\<open>int\<close> are 32-bit words. All arithmetic wraps;
  a narrowing assignment is a \<open>ucast\<close>.
\<close>

type_synonym u8 = "8 word"
type_synonym u32 = "32 word"
type_synonym u64 = "64 word"
type_synonym ulong = "64 word"

text \<open>\<^verbatim>\<open>#define ABS_DIFF(a, b) ((a) > (b) ? (a) - (b) : (b) - (a))\<close>\<close>

definition ABS_DIFF :: "ulong \<Rightarrow> ulong \<Rightarrow> ulong" where
  "ABS_DIFF a b = (if a > b then a - b else b - a)"

text \<open>\<^verbatim>\<open>#define DIV_NEAREST(a, b) (((a) + ((b) >> 1)) / (b))\<close>\<close>

definition DIV_NEAREST :: "ulong \<Rightarrow> ulong \<Rightarrow> ulong" where
  "DIV_NEAREST a b = (a + drop_bit 1 b) div b"

text \<open>
  Modelled from the spec: \<^verbatim>\<open>div_u64\<close> (linux/math64.h) is not part of the sources at
  hand. It is the kernel's 64-by-32 division: the dividend is a \<^verbatim>\<open>u64\<close>, the divisor
  parameter a \<^verbatim>\<open>u32\<close>, the quotient a \<^verbatim>\<open>u64\<close>.
\<close>

definition div_u64 :: "u64 \<Rightarrow> u32 \<Rightarrow> u64" where
  "div_u64 dividend divisor = dividend div ucast divisor"

text \<open>\<^verbatim>\<open>#define DIV_U64_NEAREST(a, b) div_u64(((a) + ((b) >> 1)), (b))\<close>: the divisor
  is halved at its own width and narrowed to 32 bits by the call.\<close>

definition DIV_U64_NEAREST :: "u64 \<Rightarrow> ulong \<Rightarrow> u64" where
  "DIV_U64_NEAREST a b = div_u64 (a + drop_bit 1 b) (ucast b)"

text \<open>
  Modelled from the spec: \<^verbatim>\<open>DIV_ROUND_CLOSEST\<close> (linux/math.h) is not part of the
  sources at hand; for unsigned operands it is division rounded to nearest,
  \<^verbatim>\<open>(x + d / 2) / d\<close>.
\<close>

definition DIV_ROUND_CLOSEST :: "ulong \<Rightarrow> ulong \<Rightarrow> ulong" where
  "DIV_ROUND_CLOSEST x d = (x + d div 2) div d"

text \<open>
  Modelled from the spec: \<^verbatim>\<open>DIV_ROUND_UP_ULL\<close> (linux/math.h) is not part of the
  sources at hand; it is the rounded-up quotient \<^verbatim>\<open>(ll + d - 1) / d\<close> computed on
  \<^verbatim>\<open>unsigned long long\<close>.
\<close>

definition DIV_ROUND_UP_ULL :: "u64 \<Rightarrow> u64 \<Rightarrow> u64" where
  "DIV_ROUND_UP_ULL ll d = (ll + d - 1) div d"

text \<open>
  Modelled from the spec: \<^verbatim>\<open>clamp(val, lo, hi)\<close> (linux/minmax.h) is not part of the
  sources at hand; it is \<^verbatim>\<open>min(max(val, lo), hi)\<close>.
\<close>

definition clamp :: "'a::len word \<Rightarrow> 'a word \<Rightarrow> 'a word \<Rightarrow> 'a word" where
  "clamp val lo hi = min (max val lo) hi"

section \<open>Register layout\<close>

definition GPCLK_OE_CTRL :: u32 where "GPCLK_OE_CTRL = 0x00000"

definition FC0_REF_KHZ :: u32 where "FC0_REF_KHZ = 0x0021c"
definition FC0_MIN_KHZ :: u32 where "FC0_MIN_KHZ = 0x00220"
definition FC0_MAX_KHZ :: u32 where "FC0_MAX_KHZ = 0x00224"
definition FC0_DELAY :: u32 where "FC0_DELAY = 0x00228"
definition FC0_INTERVAL :: u32 where "FC0_INTERVAL = 0x0022c"
definition FC0_SRC :: u32 where "FC0_SRC = 0x00230"
definition FC0_STATUS :: u32 where "FC0_STATUS = 0x00234"
definition FC0_RESULT :: u32 where "FC0_RESULT = 0x00238"
definition FC_SIZE :: u32 where "FC_SIZE = 0x20"
definition FC_COUNT :: u32 where "FC_COUNT = 8"

definition AUX_SEL :: u32 where "AUX_SEL = 1"

definition DIV_INT_8BIT_MAX :: u32 where "DIV_INT_8BIT_MAX = 0x000000ff"
definition DIV_INT_16BIT_MAX :: u32 where "DIV_INT_16BIT_MAX = 0x0000ffff"
definition DIV_INT_24BIT_MAX :: u32 where "DIV_INT_24BIT_MAX = 0x00ffffff"

definition FC0_STATUS_DONE :: u32 where "FC0_STATUS_DONE = push_bit 4 1"
definition FC0_STATUS_RUNNING :: u32 where "FC0_STATUS_RUNNING = push_bit 8 1"

definition PLL_PRIM_DIV1_SHIFT :: nat where "PLL_PRIM_DIV1_SHIFT = 16"
definition PLL_PRIM_DIV1_MASK :: u32 where "PLL_PRIM_DIV1_MASK = 0x00070000"
definition PLL_PRIM_DIV2_SHIFT :: nat where "PLL_PRIM_DIV2_SHIFT = 12"
definition PLL_PRIM_DIV2_MASK :: u32 where "PLL_PRIM_DIV2_MASK = 0x00007000"

definition PLL_SEC_DIV_SHIFT :: nat where "PLL_SEC_DIV_SHIFT = 8"
definition PLL_SEC_DIV_WIDTH :: nat where "PLL_SEC_DIV_WIDTH = 5"
definition PLL_SEC_DIV_MASK :: u32 where "PLL_SEC_DIV_MASK = 0x00001f00"

definition PLL_CS_LOCK :: u32 where "PLL_CS_LOCK = push_bit 31 1"
definition PLL_CS_REFDIV_SHIFT :: nat where "PLL_CS_REFDIV_SHIFT = 0"

definition PLL_PWR_DACPD :: u32 where "PLL_PWR_DACPD = push_bit 1 1"
definition PLL_PWR_DSMPD :: u32 where "PLL_PWR_DSMPD = push_bit 2 1"
definition PLL_PWR_4PHASEPD :: u32 where "PLL_PWR_4PHASEPD = push_bit 4 1"
definition PLL_PWR_VCOPD :: u32 where "PLL_PWR_VCOPD = push_bit 5 1"

definition PLL_SEC_RST :: u32 where "PLL_SEC_RST = push_bit 16 1"
definition PLL_SEC_IMPL :: u32 where "PLL_SEC_IMPL = push_bit 31 1"

definition CLK_CTRL_ENABLE :: u32 where "CLK_CTRL_ENABLE = push_bit 11 1"
definition CLK_CTRL_AUXSRC_MASK :: u32 where "CLK_CTRL_AUXSRC_MASK = 0x000003e0"
definition CLK_CTRL_AUXSRC_SHIFT :: nat where "CLK_CTRL_AUXSRC_SHIFT = 5"
definition CLK_CTRL_SRC_SHIFT :: nat where "CLK_CTRL_SRC_SHIFT = 0"
definition CLK_DIV_FRAC_BITS :: nat where "CLK_DIV_FRAC_BITS = 16"

definition KHz :: ulong where "KHz = 1000"
definition MHz :: ulong where "MHz = KHz * KHz"
definition FC_TIMEOUT_NS :: nat where "FC_TIMEOUT_NS = 100000000"

definition MAX_CLK_PARENTS :: nat where "MAX_CLK_PARENTS = 16"

section \<open>The register bank\<close>

text \<open>
  \<^verbatim>\<open>struct rp1_clockman\<close>: the register window and its spinlock. \<open>regs\<close> holds
  the value last written to each offset. The window is memory-mapped hardware:
  \<open>hw_read t r\<close> is \<open>Some v\<close> when at time \<open>t\<close> the chip itself drives what a read of
  offset \<open>r\<close> returns (status bits such as lock-detect, RUNNING and DONE), and
  \<open>None\<close> when the read returns the stored value. \<open>now\<close> is the monotonic clock
  \<^verbatim>\<open>ktime_get()\<close> reads, in nanoseconds, and \<open>relax t\<close> is the time of the poll
  that follows a poll at time \<open>t\<close> (one \<^verbatim>\<open>cpu_relax()\<close> later). \<open>wlog\<close> records
  every \<^verbatim>\<open>writel\<close> in order, oldest first.
\<close>

record clockman =
  regs :: "u32 \<Rightarrow> u32"
  regs_lock :: bool
  wlog :: "(u32 \<times> u32) list"
  now :: nat
  hw_read :: "nat \<Rightarrow> u32 \<Rightarrow> u32 option"
  relax :: "nat \<Rightarrow> nat"

definition set_register_field :: "u32 \<Rightarrow> u32 \<Rightarrow> u32 \<Rightarrow> nat \<Rightarrow> u32" where
  "set_register_field reg val msk shft =
     (reg AND NOT msk) OR (push_bit shft val AND msk)"

definition clockman_write :: "clockman \<Rightarrow> u32 \<Rightarrow> u32 \<Rightarrow> clockman" where
  "clockman_write s reg val =
     s\<lparr>regs := (regs s)(reg := val), wlog := wlog s @ [(reg, val)]\<rparr>"

definition clockman_read :: "clockman \<Rightarrow> u32 \<Rightarrow> u32" where
  "clockman_read s reg = (case hw_read s (now s) reg of Some v \<Rightarrow> v | None \<Rightarrow> regs s reg)"

definition spin_lock :: "clockman \<Rightarrow> clockman" where
  "spin_lock s = s\<lparr>regs_lock := True\<rparr>"

definition spin_unlock :: "clockman \<Rightarrow> clockman" where
  "spin_unlock s = s\<lparr>regs_lock := False\<rparr>"

definition ktime_after :: "nat \<Rightarrow> nat \<Rightarrow> bool" where
  "ktime_after a b = (a > b)"

definition cpu_relax :: "clockman \<Rightarrow> clockman" where
  "cpu_relax s = s\<lparr>now := relax s (now s)\<rparr>"

datatype errno = EINVAL | ETIMEDOUT

text \<open>A register bank with every register zero, the lock free, no hardware-driven
  reads and a clock that advances 40 ms from one poll to the next.\<close>

definition clockman0 :: clockman where
  "clockman0 = \<lparr>regs = (\<lambda>_. 0), regs_lock = False, wlog = [], now = 0,
                 hw_read = (\<lambda>_ _. None), relax = (\<lambda>t. t + 40000000)\<rparr>"

section \<open>PLL core\<close>

text \<open>\<^verbatim>\<open>struct rp1_pll_core_data\<close> (the register offsets) and \<^verbatim>\<open>struct rp1_pll_core\<close>
  (its cached rate).\<close>

record rp1_pll_core_data =
  cs_reg :: u32
  pwr_reg :: u32
  fbdiv_int_reg :: u32
  fbdiv_frac_reg :: u32

record rp1_pll_core =
  core_data :: rp1_pll_core_data
  core_cached_rate :: ulong


text \<open>The lock-detect poll of \<^verbatim>\<open>rp1_pll_core_on\<close>: \<open>(s, True)\<close> once PLL_CS_LOCK reads
  set, \<open>(s, False)\<close> when the deadline has passed first.\<close>

partial_function (option) pll_wait_lock :: "clockman \<Rightarrow> u32 \<Rightarrow> nat \<Rightarrow> (clockman \<times> bool) option" where
  "pll_wait_lock s cs timeout =
     (if (clockman_read s cs AND PLL_CS_LOCK) = 0 then
        (if ktime_after (now s) timeout then Some (s, False)
         else pll_wait_lock (cpu_relax s) cs timeout)
      else Some (s, True))"




text \<open>\<^verbatim>\<open>get_pll_core_divider\<close> returns \<open>(calc_rate, fbdiv_int, fbdiv_frac)\<close>; the C
  function hands the two divisor parts back through pointers.\<close>

definition get_pll_core_divider :: "ulong \<Rightarrow> ulong \<Rightarrow> ulong \<times> u32 \<times> u32" where
  "get_pll_core_divider rate parent_rate =
     (let div_fp64 = (push_bit 32 rate :: u64);
          div_fp64 = DIV_U64_NEAREST div_fp64 parent_rate;
          div_fp64 = div_fp64 + push_bit (32 - 24 - 1) 1;
          fbdiv_int = (ucast (drop_bit 32 div_fp64) :: u32);
          fbdiv_frac = (ucast (drop_bit (32 - 24) div_fp64 AND 0xffffff) :: u32);
          calc_rate = drop_bit 24
            (parent_rate * (push_bit 24 (ucast fbdiv_int) + ucast fbdiv_frac) + push_bit 23 1)
      in (calc_rate, fbdiv_int, fbdiv_frac))"

text \<open>\<^verbatim>\<open>BUG_ON\<close> stops the kernel thread where it stands: the operation does not
  return, and the register bank stays as it was left.\<close>

datatype fault = BUG clockman

definition rp1_pll_core_set_rate ::
    "clockman \<Rightarrow> rp1_pll_core \<Rightarrow> ulong \<Rightarrow> ulong \<Rightarrow> fault + (clockman \<times> rp1_pll_core)" where
  "rp1_pll_core_set_rate s pll_core rate parent_rate =
     (let d = core_data pll_core;
          s = spin_lock s;
          s = clockman_write s (fbdiv_int_reg d) 0;
          s = clockman_write s (fbdiv_frac_reg d) 0;
          s = spin_unlock s;
          (calc_rate, fbdiv_int, fbdiv_frac) = get_pll_core_divider rate parent_rate;
          s = spin_lock s;
          s = clockman_write s (pwr_reg d) (if fbdiv_frac \<noteq> 0 then 0 else PLL_PWR_DSMPD);
          s = clockman_write s (fbdiv_int_reg d) fbdiv_int;
          s = clockman_write s (fbdiv_frac_reg d) fbdiv_frac;
          s = spin_unlock s
      in if parent_rate > rate div 16 then Inl (BUG s)
         else
           (let pll_core = pll_core\<lparr>core_cached_rate := calc_rate\<rparr>;
                s = spin_lock s;
                s = clockman_write s (cs_reg d)
                      (clockman_read s (cs_reg d) OR push_bit PLL_CS_REFDIV_SHIFT 1);
                s = spin_unlock s
            in Inr (s, pll_core)))"

definition rp1_pll_core_recalc_rate :: "clockman \<Rightarrow> rp1_pll_core_data \<Rightarrow> ulong \<Rightarrow> ulong" where
  "rp1_pll_core_recalc_rate s d parent_rate =
     (let fbdiv_int = clockman_read s (fbdiv_int_reg d);
          fbdiv_frac = clockman_read s (fbdiv_frac_reg d)
      in drop_bit 24
           (parent_rate * (push_bit 24 (ucast fbdiv_int) + ucast fbdiv_frac) + push_bit 23 1))"

definition rp1_pll_core_round_rate :: "ulong \<Rightarrow> ulong \<Rightarrow> ulong" where
  "rp1_pll_core_round_rate rate parent_rate = fst (get_pll_core_divider rate parent_rate)"

text \<open>The descriptor of \<^verbatim>\<open>pll_sys_core\<close> in \<^verbatim>\<open>clk_desc_array\<close>.\<close>

definition pll_sys_core_data :: rp1_pll_core_data where
  "pll_sys_core_data = \<lparr>cs_reg = 0x08000, pwr_reg = 0x08004,
                         fbdiv_int_reg = 0x08008, fbdiv_frac_reg = 0x0800c\<rparr>"

section \<open>Frequency counter\<close>

text \<open>The two polls of \<^verbatim>\<open>clockman_measure_clock\<close>: while RUNNING reads set, and
  while DONE reads clear; \<open>(s, False)\<close> is the timeout exit.\<close>

partial_function (option) fc_wait_idle :: "clockman \<Rightarrow> u32 \<Rightarrow> nat \<Rightarrow> (clockman \<times> bool) option" where
  "fc_wait_idle s status_reg timeout =
     (if (clockman_read s status_reg AND FC0_STATUS_RUNNING) \<noteq> 0 then
        (if ktime_after (now s) timeout then Some (s, False)
         else fc_wait_idle (cpu_relax s) status_reg timeout)
      else Some (s, True))"

partial_function (option) fc_wait_done :: "clockman \<Rightarrow> u32 \<Rightarrow> nat \<Rightarrow> (clockman \<times> bool) option" where
  "fc_wait_done s status_reg timeout =
     (if (clockman_read s status_reg AND FC0_STATUS_DONE) = 0 then
        (if ktime_after (now s) timeout then Some (s, False)
         else fc_wait_done (cpu_relax s) status_reg timeout)
      else Some (s, True))"

definition fc_program :: "clockman \<Rightarrow> u32 \<Rightarrow> ulong \<Rightarrow> u32 \<Rightarrow> clockman" where
  "fc_program s fc_offset ref_rate fc_src =
     (let s = spin_lock s;
          s = clockman_write s (fc_offset + FC0_REF_KHZ) (ucast (ref_rate div KHz));
          s = clockman_write s (fc_offset + FC0_MIN_KHZ) 0;
          s = clockman_write s (fc_offset + FC0_MAX_KHZ) 0x1ffffff;
          s = clockman_write s (fc_offset + FC0_INTERVAL) 8;
          s = clockman_write s (fc_offset + FC0_DELAY) 7;
          s = clockman_write s (fc_offset + FC0_SRC) fc_src
      in spin_unlock s)"

definition fc_disable :: "clockman \<Rightarrow> u32 \<Rightarrow> clockman" where
  "fc_disable s fc_offset =
     (let s = spin_lock s;
          s = clockman_write s (fc_offset + FC0_SRC) 0
      in spin_unlock s)"

text \<open>\<^verbatim>\<open>clockman_measure_clock\<close>. \<open>ref_rate\<close> is what \<^verbatim>\<open>clk_get_rate\<close> returns for
  the reference clock \<^verbatim>\<open>clk_slow_sys\<close>; the clock name is only printed. The result
  is the register bank afterwards and the returned \<^verbatim>\<open>unsigned long\<close>.\<close>

definition clockman_measure_clock :: "clockman \<Rightarrow> ulong \<Rightarrow> u32 \<Rightarrow> (clockman \<times> ulong) option" where
  "clockman_measure_clock s ref_rate fc0_src =
     (let fc_idx = fc0_src div 32;
          fc_src = fc0_src mod 32
      in if fc_src = 0 \<or> fc_idx \<ge> FC_COUNT then Some (s, 0)
         else
           (let fc_offset = fc_idx * FC_SIZE
            in case fc_wait_idle s (fc_offset + FC0_STATUS) (now s + FC_TIMEOUT_NS) of
                 None \<Rightarrow> None
               | Some (s, False) \<Rightarrow> Some (s, 0)
               | Some (s, True) \<Rightarrow>
                   (let s = fc_program s fc_offset ref_rate fc_src
                    in case fc_wait_done s (fc_offset + FC0_STATUS) (now s + FC_TIMEOUT_NS) of
                         None \<Rightarrow> None
                       | Some (s, False) \<Rightarrow> Some (s, 0)
                       | Some (s, True) \<Rightarrow>
                           (let result = clockman_read s (fc_offset + FC0_RESULT);
                                s = fc_disable s fc_offset
                            in Some (s, ucast result)))))"

section \<open>PLL primary output\<close>

text \<open>
  The search of \<^verbatim>\<open>get_pll_prim_dividers\<close>. The loop counters \<^verbatim>\<open>div1\<close>, \<^verbatim>\<open>div2\<close>
  run from 1 to 7 and are natural numbers here; the rates are 64-bit
  (\<^verbatim>\<open>calc_rate\<close> and \<^verbatim>\<open>rate_diff\<close> are declared \<^verbatim>\<open>long\<close>, but every comparison
  has an \<^verbatim>\<open>unsigned long\<close> operand and so is unsigned). The search state is
  \<open>(best_div1, best_div2, best_rate_diff)\<close>; the flag returned by the inner loop
  is the \<^verbatim>\<open>goto done\<close>.
\<close>

type_synonym prim_best = "nat \<times> nat \<times> ulong"

function prim_inner :: "ulong \<Rightarrow> ulong \<Rightarrow> nat \<Rightarrow> nat \<Rightarrow> prim_best \<Rightarrow> prim_best \<times> bool" where
  "prim_inner rate parent_rate div1 div2 best =
     (if div2 \<le> div1 then
        (let calc_rate = DIV_ROUND_CLOSEST parent_rate (of_nat (div1 * div2));
             rate_diff = ABS_DIFF calc_rate rate
         in if calc_rate = rate then ((div1, div2, snd (snd best)), True)
            else if rate_diff < snd (snd best)
              then prim_inner rate parent_rate div1 (div2 + 1) (div1, div2, rate_diff)
            else prim_inner rate parent_rate div1 (div2 + 1) best)
      else (best, False))"
  by pat_completeness auto
termination
  by (relation "measure (\<lambda>(rate, parent_rate, div1, div2, best). Suc div1 - div2)") auto

function prim_outer :: "ulong \<Rightarrow> ulong \<Rightarrow> nat \<Rightarrow> prim_best \<Rightarrow> prim_best" where
  "prim_outer rate parent_rate div1 best =
     (if div1 \<le> 7 then
        (case prim_inner rate parent_rate div1 1 best of
           (best', True) \<Rightarrow> best'
         | (best', False) \<Rightarrow> prim_outer rate parent_rate (div1 + 1) best')
      else best)"
  by pat_completeness auto
termination
  by (relation "measure (\<lambda>(rate, parent_rate, div1, best). 8 - div1)") auto

definition pll_prim_search :: "ulong \<Rightarrow> ulong \<Rightarrow> nat \<times> nat" where
  "pll_prim_search rate parent_rate =
     (let best_div1 = 7; best_div2 = 7;
          best_rate_diff = ABS_DIFF (DIV_ROUND_CLOSEST parent_rate (of_nat (best_div1 * best_div2))) rate;
          (b1, b2, d) = prim_outer rate parent_rate 1 (best_div1, best_div2, best_rate_diff)
      in (b1, b2))"

definition get_pll_prim_dividers :: "ulong \<Rightarrow> ulong \<Rightarrow> u32 \<times> u32" where
  "get_pll_prim_dividers rate parent_rate =
     (case pll_prim_search rate parent_rate of (b1, b2) \<Rightarrow> (of_nat b1, of_nat b2))"

declare prim_inner.simps [simp del] prim_outer.simps [simp del]

text \<open>
  For stating what the search returns: the pairs in the order the two loops visit
  them, a pair's candidate rate and its distance from the target, and the loop body
  applied along a list of pairs (the flag is the short-circuit on an exact match).
\<close>

definition prim_pairs :: "(nat \<times> nat) list" where
  "prim_pairs = concat (map (\<lambda>div1. map (Pair div1) [1..<Suc div1]) [1..<8])"

definition prim_calc :: "ulong \<Rightarrow> nat \<times> nat \<Rightarrow> ulong" where
  "prim_calc parent_rate p = DIV_ROUND_CLOSEST parent_rate (of_nat (fst p * snd p))"

definition prim_diff :: "ulong \<Rightarrow> ulong \<Rightarrow> nat \<times> nat \<Rightarrow> ulong" where
  "prim_diff rate parent_rate p = ABS_DIFF (prim_calc parent_rate p) rate"

fun prim_scan :: "ulong \<Rightarrow> ulong \<Rightarrow> (nat \<times> nat) list \<Rightarrow> prim_best \<Rightarrow> prim_best \<times> bool" where
  "prim_scan rate parent_rate [] best = (best, False)"
| "prim_scan rate parent_rate (p # ps) best =
     (if prim_calc parent_rate p = rate then ((fst p, snd p, snd (snd best)), True)
      else if prim_diff rate parent_rate p < snd (snd best)
        then prim_scan rate parent_rate ps (fst p, snd p, prim_diff rate parent_rate p)
      else prim_scan rate parent_rate ps best)"

section \<open>PLL secondary output\<close>

text \<open>\<^verbatim>\<open>pll_sec_div_table\<close>: the \<^verbatim>\<open>{ val, div }\<close> entries before the terminating
  \<^verbatim>\<open>{ 0 }\<close>.\<close>

definition pll_sec_div_table :: "(nat \<times> nat) list" where
  "pll_sec_div_table =
     [(0x00, 19), (0x01, 19), (0x02, 19), (0x03, 19), (0x04, 19), (0x05, 19),
      (0x06, 19), (0x07, 19), (0x08, 8), (0x09, 9), (0x0a, 10), (0x0b, 11),
      (0x0c, 12), (0x0d, 13), (0x0e, 14), (0x0f, 15), (0x10, 16), (0x11, 17),
      (0x12, 18), (0x13, 19), (0x14, 19), (0x15, 19), (0x16, 19), (0x17, 19),
      (0x18, 19), (0x19, 19), (0x1a, 19), (0x1b, 19), (0x1c, 19), (0x1d, 19),
      (0x1e, 19), (0x1f, 19)]"

text \<open>
  Modelled from the spec: the table lookup is done by the common clock framework's
  divider (\<^verbatim>\<open>clk_divider_ops\<close>), which is not part of the sources at hand. A raw
  register code decodes to the \<^verbatim>\<open>div\<close> of the first entry whose \<^verbatim>\<open>val\<close> equals it,
  and to 0 when there is none.
\<close>

fun table_div :: "(nat \<times> nat) list \<Rightarrow> nat \<Rightarrow> nat" where
  "table_div [] val = 0"
| "table_div ((v, d) # rest) val = (if v = val then d else table_div rest val)"

text \<open>\<^verbatim>\<open>struct rp1_pll_data\<close>, as far as the operations below read it.\<close>

record rp1_pll_data =
  pll_ctrl_reg :: u32
  pll_fc0_src :: u32

definition rp1_pll_divider_is_on :: "clockman \<Rightarrow> rp1_pll_data \<Rightarrow> bool" where
  "rp1_pll_divider_is_on s d = ((clockman_read s (pll_ctrl_reg d) AND PLL_SEC_RST) = 0)"

text \<open>The divisor \<^verbatim>\<open>rp1_pll_divider_set_rate\<close> computes: \<^verbatim>\<open>div\<close> is a \<^verbatim>\<open>u32\<close>, so
  the 64-bit quotient is narrowed before it is clamped (\<open>dv\<close> is the C variable
  \<^verbatim>\<open>div\<close>).\<close>

definition pll_divider_div :: "ulong \<Rightarrow> ulong \<Rightarrow> u32" where
  "pll_divider_div rate parent_rate =
     (let dv = (ucast (DIV_ROUND_UP_ULL parent_rate rate) :: u32)
      in clamp dv 8 19)"

definition rp1_pll_divider_set_rate ::
    "clockman \<Rightarrow> rp1_pll_data \<Rightarrow> ulong \<Rightarrow> ulong \<Rightarrow> ulong \<Rightarrow> clockman option" where
  "rp1_pll_divider_set_rate s d ref_rate rate parent_rate =
     (let dv = pll_divider_div rate parent_rate;
          s = spin_lock s;
          sec = clockman_read s (pll_ctrl_reg d);
          sec = set_register_field sec dv PLL_SEC_DIV_MASK PLL_SEC_DIV_SHIFT;
          sec = sec OR PLL_SEC_RST;
          s = clockman_write s (pll_ctrl_reg d) sec;
          sec = sec AND NOT PLL_SEC_RST;
          s = clockman_write s (pll_ctrl_reg d) sec;
          s = spin_unlock s
      in if rp1_pll_divider_is_on s d
         then map_option fst (clockman_measure_clock s ref_rate (pll_fc0_src d))
         else Some s)"

text \<open>The descriptor of \<^verbatim>\<open>pll_sys_sec\<close> in \<^verbatim>\<open>clk_desc_array\<close>
  (\<^verbatim>\<open>FC_NUM(2, 2)\<close> is \<open>2 * 32 + 2\<close>).\<close>

definition pll_sys_sec_data :: rp1_pll_data where
  "pll_sys_sec_data = \<lparr>pll_ctrl_reg = 0x08014, pll_fc0_src = 2 * 32 + 2\<rparr>"

section \<open>Clock leaf: data, divider, parent selection\<close>

text \<open>
  \<^verbatim>\<open>struct rp1_clock_data\<close>, as far as the operations below read it. The two parent
  counts are C \<^verbatim>\<open>int\<close>s that every descriptor sets to a small non-negative number;
  \<open>no_reparent\<close> is \<^verbatim>\<open>flags & CLK_SET_RATE_NO_REPARENT\<close>.
\<close>

record rp1_clock_data =
  num_std_parents :: nat
  num_aux_parents :: nat
  no_reparent :: bool
  oe_mask :: u32
  clk_src_mask :: u32
  ctrl_reg :: u32
  div_int_reg :: u32
  div_frac_reg :: u32
  sel_reg :: u32
  div_int_max :: u32
  max_freq :: ulong
  fc0_src :: u32

definition rp1_clock_choose_div :: "ulong \<Rightarrow> ulong \<Rightarrow> rp1_clock_data \<Rightarrow> u32" where
  "rp1_clock_choose_div rate parent_rate data =
     (if rate = 0 \<or> rate > parent_rate + drop_bit CLK_DIV_FRAC_BITS parent_rate then 0
      else
        (let dv = (if div_frac_reg data \<noteq> 0
                   then DIV_U64_NEAREST (push_bit CLK_DIV_FRAC_BITS parent_rate) rate
                   else push_bit CLK_DIV_FRAC_BITS (DIV_U64_NEAREST parent_rate rate));
             dv = clamp dv (push_bit CLK_DIV_FRAC_BITS 1)
                    (push_bit CLK_DIV_FRAC_BITS (ucast (div_int_max data) :: u64))
         in ucast dv))"

text \<open>
  Modelled from the spec: \<^verbatim>\<open>ffs\<close> (the kernel's find-first-set) is not part of the
  sources at hand; it is the 1-based position of the least significant set bit, and
  0 for 0.
\<close>

definition ffs :: "u32 \<Rightarrow> nat" where
  "ffs x = (case find (bit x) [0..<32] of None \<Rightarrow> 0 | Some n \<Rightarrow> Suc n)"

definition rp1_clock_get_parent :: "clockman \<Rightarrow> rp1_clock_data \<Rightarrow> u8" where
  "rp1_clock_get_parent s data =
     (let sel = clockman_read s (sel_reg data);
          parent = (of_nat (ffs sel) - 1 :: u8);
          parent = (if sel = 0
                    then ucast (drop_bit CLK_CTRL_SRC_SHIFT
                                  (clockman_read s (ctrl_reg data) AND clk_src_mask data))
                    else parent);
          parent = (if unat parent \<ge> num_std_parents data then ucast AUX_SEL else parent)
      in if parent = ucast AUX_SEL
         then ucast (drop_bit CLK_CTRL_AUXSRC_SHIFT
                       (clockman_read s (ctrl_reg data) AND CLK_CTRL_AUXSRC_MASK))
              + of_nat (num_std_parents data)
         else parent)"

text \<open>\<^verbatim>\<open>rp1_clock_set_parent\<close>: the register bank afterwards and the returned status
  (\<open>Inl EINVAL\<close> is \<^verbatim>\<open>-EINVAL\<close>, \<open>Inr ()\<close> is 0). \<open>set_parent_commit\<close> is the
  common tail of the two branches, from the write of the control register on; the
  final \<^verbatim>\<open>WARN\<close> only prints.\<close>

definition set_parent_commit :: "clockman \<Rightarrow> rp1_clock_data \<Rightarrow> u32 \<Rightarrow> clockman \<times> (errno + unit)" where
  "set_parent_commit s data ctrl =
     (let s = clockman_write s (ctrl_reg data) ctrl;
          s = spin_unlock s;
          sel = rp1_clock_get_parent s data
      in (s, Inr ()))"

definition rp1_clock_set_parent ::
    "clockman \<Rightarrow> rp1_clock_data \<Rightarrow> u8 \<Rightarrow> clockman \<times> (errno + unit)" where
  "rp1_clock_set_parent s data index =
     (let s = spin_lock s;
          ctrl = clockman_read s (ctrl_reg data)
      in if unat index \<ge> num_std_parents data then
           (if unat index \<ge> num_std_parents data + num_aux_parents data
            then (s, Inl EINVAL)
            else
              (let ctrl = set_register_field ctrl (of_nat (unat index - num_std_parents data))
                            CLK_CTRL_AUXSRC_MASK CLK_CTRL_AUXSRC_SHIFT;
                   ctrl = set_register_field ctrl AUX_SEL (clk_src_mask data) CLK_CTRL_SRC_SHIFT
               in set_parent_commit s data ctrl))
         else
           (let ctrl = set_register_field ctrl (ucast index) (clk_src_mask data) CLK_CTRL_SRC_SHIFT
            in set_parent_commit s data ctrl))"

text \<open>Four descriptors of \<^verbatim>\<open>clk_desc_array\<close>: \<^verbatim>\<open>clk_sys\<close> (integer divider, 24 bits),
  \<^verbatim>\<open>clk_uart\<close> and \<^verbatim>\<open>clk_i2s\<close> (integer divider, 8 bits), and \<^verbatim>\<open>clk_gp0\<close>
  (fractional divider, 16 bits).\<close>

definition clk_sys_data :: rp1_clock_data where
  "clk_sys_data = \<lparr>num_std_parents = 3, num_aux_parents = 0, no_reparent = False,
       oe_mask = 0, clk_src_mask = 0x3, ctrl_reg = 0x00014, div_int_reg = 0x00018,
       div_frac_reg = 0, sel_reg = 0x00020, div_int_max = DIV_INT_24BIT_MAX,
       max_freq = 200 * MHz, fc0_src = 0 * 32 + 4\<rparr>"

definition clk_uart_data :: rp1_clock_data where
  "clk_uart_data = \<lparr>num_std_parents = 0, num_aux_parents = 9, no_reparent = False,
       oe_mask = 0, clk_src_mask = 0, ctrl_reg = 0x00054, div_int_reg = 0x00058,
       div_frac_reg = 0, sel_reg = 0x00060, div_int_max = DIV_INT_8BIT_MAX,
       max_freq = 100 * MHz, fc0_src = 6 * 32 + 7\<rparr>"

definition clk_i2s_data :: rp1_clock_data where
  "clk_i2s_data = \<lparr>num_std_parents = 0, num_aux_parents = 9, no_reparent = False,
       oe_mask = 0, clk_src_mask = 0, ctrl_reg = 0x000b4, div_int_reg = 0x000b8,
       div_frac_reg = 0, sel_reg = 0x000c0, div_int_max = DIV_INT_8BIT_MAX,
       max_freq = 50 * MHz, fc0_src = 4 * 32 + 4\<rparr>"

definition clk_gp0_data :: rp1_clock_data where
  "clk_gp0_data = \<lparr>num_std_parents = 0, num_aux_parents = 16, no_reparent = False,
       oe_mask = push_bit 0 1, clk_src_mask = 0, ctrl_reg = 0x00174, div_int_reg = 0x00178,
       div_frac_reg = 0x0017c, sel_reg = 0x00180, div_int_max = DIV_INT_16BIT_MAX,
       max_freq = 100 * MHz, fc0_src = 0 * 32 + 1\<rparr>"

section \<open>Rate negotiation\<close>

text \<open>
  A \<^verbatim>\<open>struct clk_hw *\<close> is the identity of a clock; \<open>None\<close> is \<^verbatim>\<open>NULL\<close>. The
  common clock framework is not part of the driver: what the driver asks of it
  (\<^verbatim>\<open>clk_hw_get_parent_by_index\<close>, \<^verbatim>\<open>clk_hw_get_parent\<close>, \<^verbatim>\<open>clk_hw_get_rate\<close>) is a
  parameter of the model. The driver's file-scope variables are \<open>clk_globals\<close>:
  the three-entry change cache \<^verbatim>\<open>rp1_clk_chg_tree\<close> (an array, indexed 0 to 2) and
  the three cached handles.
\<close>

type_synonym clk_hw = "nat option"

record clk_framework =
  clk_hw_get_parent_by_index :: "clk_hw \<Rightarrow> nat \<Rightarrow> clk_hw"
  clk_hw_get_parent :: "clk_hw \<Rightarrow> clk_hw"
  clk_hw_get_rate :: "clk_hw \<Rightarrow> ulong"

record rp1_clk_change =
  chg_hw :: clk_hw
  new_rate :: ulong

record clk_globals =
  rp1_clk_chg_tree :: "nat \<Rightarrow> rp1_clk_change"
  clk_xosc :: clk_hw
  clk_audio :: clk_hw
  clk_i2s :: clk_hw

subsection \<open>\<^verbatim>\<open>calc_core_pll_rate\<close>\<close>

definition prim_divs :: "nat list" where
  "prim_divs = [2, 3, 4, 5, 6, 7, 8, 9, 10, 12, 14, 15, 16,
                18, 20, 21, 24, 25, 28, 30, 35, 36, 42, 49]"

definition core_max :: ulong where
  "core_max = 2400000000"

text \<open>The inner loop over \<^verbatim>\<open>div_clk\<close>: \<open>Some (div_clk, core_rate)\<close> at the
  \<^verbatim>\<open>break\<close>, \<open>None\<close> when the loop runs out at 256.\<close>

function core_inner :: "ulong \<Rightarrow> ulong \<Rightarrow> nat \<Rightarrow> nat \<Rightarrow> (nat \<times> ulong) option" where
  "core_inner target_rate core_min div_prim div_clk =
     (if div_clk \<le> 256 then
        (let core_rate = target_rate * of_nat div_clk * of_nat div_prim
         in if core_rate \<ge> core_min then Some (div_clk, core_rate)
            else core_inner target_rate core_min div_prim (div_clk + 1))
      else None)"
  by pat_completeness auto
termination
  by (relation "measure (\<lambda>(target_rate, core_min, div_prim, div_clk). 257 - div_clk)") auto

declare core_inner.simps [simp del]

text \<open>The VCO rate of a combination, as the inner loop computes it (64-bit, wrapping).\<close>

definition vco :: "ulong \<Rightarrow> nat \<Rightarrow> nat \<Rightarrow> ulong" where
  "vco target_rate div_clk div_prim = target_rate * of_nat div_clk * of_nat div_prim"

text \<open>The outer loop over \<^verbatim>\<open>prim_divs\<close>; the state is
  \<open>(best_rate, best_div_prim, best_div_clk)\<close>.\<close>

type_synonym core_best = "ulong \<times> nat \<times> nat"

fun core_outer :: "ulong \<Rightarrow> ulong \<Rightarrow> nat list \<Rightarrow> core_best \<Rightarrow> core_best" where
  "core_outer target_rate core_min [] best = best"
| "core_outer target_rate core_min (div_prim # rest) best =
     (case core_inner target_rate core_min div_prim 1 of
        Some (div_clk, core_rate) \<Rightarrow>
          if core_rate < fst best
          then core_outer target_rate core_min rest (core_rate, div_prim, div_clk)
          else core_outer target_rate core_min rest best
      | None \<Rightarrow> core_outer target_rate core_min rest best)"

definition core_search :: "ulong \<Rightarrow> ulong \<Rightarrow> core_best" where
  "core_search xosc_rate target_rate =
     core_outer target_rate (xosc_rate * 16) prim_divs (core_max + 1, 1, 1)"

text \<open>The rate re-derived from the feedback divisor: \<^verbatim>\<open>div_int\<close> and \<^verbatim>\<open>div_frac\<close>
  are C \<^verbatim>\<open>int\<close>s, so their sum is a 32-bit value that is sign-extended when it is
  multiplied with the \<^verbatim>\<open>unsigned long\<close> reference rate.\<close>

definition core_rederive :: "ulong \<Rightarrow> ulong \<Rightarrow> ulong" where
  "core_rederive xosc_rate best_rate =
     (let dv = (push_bit 24 best_rate + xosc_rate div 2) div xosc_rate;
          div_int = (ucast (drop_bit 24 dv) :: 32 word);
          div_frac = (ucast (dv mod push_bit 24 1) :: 32 word)
      in drop_bit 24 (xosc_rate * scast (push_bit 24 div_int + div_frac) + push_bit 23 1))"

text \<open>\<^verbatim>\<open>calc_core_pll_rate\<close> returns \<open>(core_rate, *pdiv_prim, *pdiv_clk)\<close>;
  \<open>xosc_rate\<close> is \<^verbatim>\<open>clk_hw_get_rate(clk_xosc)\<close>.\<close>

definition calc_core_pll_rate :: "ulong \<Rightarrow> ulong \<Rightarrow> ulong \<times> nat \<times> nat" where
  "calc_core_pll_rate xosc_rate target_rate =
     (case core_search xosc_rate target_rate of
        (best_rate, best_div_prim, best_div_clk) \<Rightarrow>
          (if best_rate < core_max then core_rederive xosc_rate best_rate else 0,
           best_div_prim, best_div_clk))"

subsection \<open>\<^verbatim>\<open>rp1_clock_choose_div_and_prate\<close>\<close>

text \<open>The scan of the change cache: \<open>Some (prate, calc_rate)\<close> when an entry for
  this clock and rate is taken, \<open>None\<close> when the loop falls through.\<close>

function chg_tree_lookup ::
    "clk_framework \<Rightarrow> clk_globals \<Rightarrow> clk_hw \<Rightarrow> clk_hw \<Rightarrow> ulong \<Rightarrow> nat \<Rightarrow> (ulong \<times> ulong) option" where
  "chg_tree_lookup fw g hw parent rate i =
     (if i < 3 then
        (let chg = rp1_clk_chg_tree g i
         in if chg_hw chg = hw \<and> new_rate chg = rate then
              (if i = 2 then Some (clk_hw_get_rate fw (clk_xosc g), new_rate chg)
               else if parent = chg_hw (rp1_clk_chg_tree g (i + 1))
                 then Some (new_rate (rp1_clk_chg_tree g (i + 1)), new_rate chg)
               else chg_tree_lookup fw g hw parent rate (i + 1))
            else chg_tree_lookup fw g hw parent rate (i + 1))
      else None)"
  by pat_completeness auto
termination
  by (relation "measure (\<lambda>(fw, g, hw, parent, rate, i). 3 - i)") auto

text \<open>The chain retune taken when the leaf is \<^verbatim>\<open>clk_i2s\<close> and the parent is
  \<^verbatim>\<open>clk_audio\<close>: it refills the change cache.\<close>

definition i2s_chain_retune ::
    "clk_framework \<Rightarrow> clk_globals \<Rightarrow> clk_hw \<Rightarrow> ulong \<Rightarrow> clk_globals \<times> ulong \<times> ulong" where
  "i2s_chain_retune fw g parent rate =
     (case calc_core_pll_rate (clk_hw_get_rate fw (clk_xosc g)) rate of
        (core_rate, div_prim, div_clk) \<Rightarrow>
          (let audio_rate = DIV_NEAREST core_rate (of_nat div_prim);
               i2s_rate = DIV_NEAREST audio_rate (of_nat div_clk);
               tree = rp1_clk_chg_tree g;
               tree = tree(2 := \<lparr>chg_hw = clk_hw_get_parent fw parent, new_rate = core_rate\<rparr>);
               tree = tree(1 := \<lparr>chg_hw = clk_audio g, new_rate = audio_rate\<rparr>);
               tree = tree(0 := \<lparr>chg_hw = clk_i2s g, new_rate = i2s_rate\<rparr>)
           in (g\<lparr>rp1_clk_chg_tree := tree\<rparr>, audio_rate, i2s_rate)))"

text \<open>The general path: the divider against the parent's live rate, and the
  overclock guard.\<close>

definition clock_div_and_guard :: "rp1_clock_data \<Rightarrow> ulong \<Rightarrow> ulong \<Rightarrow> ulong" where
  "clock_div_and_guard data rate prate =
     (let dv = rp1_clock_choose_div rate prate data
      in if dv = 0 then 0
         else
           (let tmp = div_u64 (push_bit CLK_DIV_FRAC_BITS prate) dv
            in if tmp > max_freq data then 0 else tmp))"

text \<open>\<^verbatim>\<open>rp1_clock_choose_div_and_prate\<close> returns the globals afterwards, \<^verbatim>\<open>*prate\<close>
  and \<^verbatim>\<open>*calc_rate\<close>.\<close>

definition rp1_clock_choose_div_and_prate ::
    "clk_framework \<Rightarrow> clk_globals \<Rightarrow> rp1_clock_data \<Rightarrow> clk_hw \<Rightarrow> nat \<Rightarrow> ulong
       \<Rightarrow> clk_globals \<times> ulong \<times> ulong" where
  "rp1_clock_choose_div_and_prate fw g data hw parent_idx rate =
     (let parent = clk_hw_get_parent_by_index fw hw parent_idx
      in case chg_tree_lookup fw g hw parent rate 0 of
           Some (prate, calc_rate) \<Rightarrow> (g, prate, calc_rate)
         | None \<Rightarrow>
             if hw = clk_i2s g \<and> parent = clk_audio g then i2s_chain_retune fw g parent rate
             else
               (let prate = clk_hw_get_rate fw parent
                in (g, prate, clock_div_and_guard data rate prate)))"

subsection \<open>\<^verbatim>\<open>rp1_clock_determine_rate\<close>\<close>

text \<open>The search state is \<open>(best_parent, best_prate, best_rate, best_rate_diff)\<close>.
  \<^verbatim>\<open>clk_hw_get_num_parents\<close> is the count the clock was registered with,
  \<^verbatim>\<open>num_std_parents + num_aux_parents\<close>.\<close>

type_synonym rate_best = "clk_hw \<times> ulong \<times> ulong \<times> ulong"

function determine_loop ::
    "clk_framework \<Rightarrow> rp1_clock_data \<Rightarrow> clk_hw \<Rightarrow> ulong \<Rightarrow> nat \<Rightarrow> nat
       \<Rightarrow> clk_globals \<times> rate_best \<Rightarrow> clk_globals \<times> rate_best" where
  "determine_loop fw data hw rate n i gb =
     (if i < n then
        (let parent = clk_hw_get_parent_by_index fw hw i
         in if parent = None then determine_loop fw data hw rate n (i + 1) gb
            else
              (case rp1_clock_choose_div_and_prate fw (fst gb) data hw i rate of
                 (g, prate, calc_rate) \<Rightarrow>
                   if ABS_DIFF calc_rate rate < snd (snd (snd (snd gb))) then
                     (if ABS_DIFF calc_rate rate = 0
                      then (g, (parent, prate, calc_rate, ABS_DIFF calc_rate rate))
                      else determine_loop fw data hw rate n (i + 1)
                             (g, (parent, prate, calc_rate, ABS_DIFF calc_rate rate)))
                   else determine_loop fw data hw rate n (i + 1) (g, snd gb)))
      else gb)"
  by pat_completeness auto
termination
  by (relation "measure (\<lambda>(fw, data, hw, rate, n, i, gb). n - i)") auto

text \<open>The attempt on the current parent that a \<^verbatim>\<open>CLK_SET_RATE_NO_REPARENT\<close> clock
  makes first: \<open>Some\<close> is its early \<^verbatim>\<open>return 0\<close>.\<close>

definition determine_current ::
    "clk_framework \<Rightarrow> clockman \<Rightarrow> clk_globals \<Rightarrow> rp1_clock_data \<Rightarrow> clk_hw \<Rightarrow> ulong
       \<Rightarrow> clk_globals \<times> (clk_hw \<times> ulong \<times> ulong) option" where
  "determine_current fw s g data hw rate =
     (let i = unat (rp1_clock_get_parent s data);
          parent = clk_hw_get_parent_by_index fw hw i
      in if parent \<noteq> None then
           (case rp1_clock_choose_div_and_prate fw g data hw i rate of
              (g, prate, calc_rate) \<Rightarrow>
                (g, if calc_rate > 0 then Some (parent, prate, calc_rate) else None))
         else (g, None))"

text \<open>\<^verbatim>\<open>rp1_clock_determine_rate\<close>: the globals afterwards and either \<^verbatim>\<open>-EINVAL\<close> or
  the request's \<open>(best_parent_hw, best_parent_rate, rate)\<close>.\<close>

definition rp1_clock_determine_rate ::
    "clk_framework \<Rightarrow> clockman \<Rightarrow> clk_globals \<Rightarrow> rp1_clock_data \<Rightarrow> clk_hw \<Rightarrow> ulong
       \<Rightarrow> clk_globals \<times> (errno + clk_hw \<times> ulong \<times> ulong)" where
  "rp1_clock_determine_rate fw s g data hw req_rate =
     (case (if no_reparent data then determine_current fw s g data hw req_rate else (g, None)) of
        (g, Some r) \<Rightarrow> (g, Inr r)
      | (g, None) \<Rightarrow>
          (case determine_loop fw data hw req_rate
                  (num_std_parents data + num_aux_parents data) 0 (g, (None, 0, 0, - 1)) of
             (g, (best_parent, best_prate, best_rate, best_rate_diff)) \<Rightarrow>
               if best_rate = 0 then (g, Inl EINVAL)
               else (g, Inr (best_parent, best_prate, best_rate))))"

declare chg_tree_lookup.simps [simp del] determine_loop.simps [simp del]

subsection \<open>The parent scan as a list\<close>

text \<open>The calls of \<^verbatim>\<open>rp1_clock_choose_div_and_prate\<close> that the loop of
  \<^verbatim>\<open>rp1_clock_determine_rate\<close> would make if it never took its \<^verbatim>\<open>break\<close>: for each
  index with a non-NULL parent, in index order, \<open>(i, parent, prate, calc_rate)\<close>; the
  globals are threaded from call to call as the loop threads them. \<open>cand_diff\<close> is
  the loop's \<^verbatim>\<open>ABS_DIFF(calc_rate, req->rate)\<close>, and \<open>select_best\<close> is the loop's update
  of \<open>(best_parent, best_prate, best_rate, best_rate_diff)\<close> run over such a list, with
  its \<^verbatim>\<open>break\<close>.\<close>

type_synonym candidate = "nat \<times> clk_hw \<times> ulong \<times> ulong"

function cand_trace ::
    "clk_framework \<Rightarrow> rp1_clock_data \<Rightarrow> clk_hw \<Rightarrow> ulong \<Rightarrow> nat \<Rightarrow> nat \<Rightarrow> clk_globals
       \<Rightarrow> candidate list" where
  "cand_trace fw data hw rate n i g =
     (if i < n then
        (let parent = clk_hw_get_parent_by_index fw hw i
         in if parent = None then cand_trace fw data hw rate n (i + 1) g
            else
              (case rp1_clock_choose_div_and_prate fw g data hw i rate of
                 (g', prate, calc_rate) \<Rightarrow>
                   (i, parent, prate, calc_rate) # cand_trace fw data hw rate n (i + 1) g'))
      else [])"
  by pat_completeness auto
termination
  by (relation "measure (\<lambda>(fw, data, hw, rate, n, i, g). n - i)") auto

declare cand_trace.simps [simp del]

definition cand_diff :: "ulong \<Rightarrow> candidate \<Rightarrow> ulong" where
  "cand_diff rate c = ABS_DIFF (snd (snd (snd c))) rate"

fun select_best :: "ulong \<Rightarrow> candidate list \<Rightarrow> rate_best \<Rightarrow> rate_best" where
  "select_best rate [] best = best"
| "select_best rate (c # cs) best =
     (if cand_diff rate c < snd (snd (snd best)) then
        (if cand_diff rate c = 0 then (fst (snd c), fst (snd (snd c)), snd (snd (snd c)), cand_diff rate c)
         else select_best rate cs (fst (snd c), fst (snd (snd c)), snd (snd (snd c)), cand_diff rate c))
      else select_best rate cs best)"

section \<open>Concrete register banks\<close>

text \<open>A PLL core record for \<^verbatim>\<open>pll_sys_core\<close>; a register bank whose PLL reports lock
  and has a fractional divisor programmed; and a register bank whose frequency
  counter 4 always reads RUNNING and never DONE.\<close>

definition pll_sys_core :: rp1_pll_core where
  "pll_sys_core = \<lparr>core_data = pll_sys_core_data, core_cached_rate = 0\<rparr>"


definition clockman_busy :: clockman where
  "clockman_busy = clockman0
     \<lparr>hw_read := (\<lambda>t r. if r = 4 * 0x20 + 0x00234 then Some FC0_STATUS_RUNNING else None)\<rparr>"


text \<open>A register bank whose frequency counter 4 reads RUNNING up to and including
  100 ms and DONE afterwards, with result 50000; and one whose frequency counter 4
  is idle and never reads DONE.\<close>

definition clockman_late :: clockman where
  "clockman_late = clockman0
     \<lparr>hw_read := (\<lambda>t r. if r = 4 * 0x20 + 0x00234
                         then Some (if t \<le> 100000000 then FC0_STATUS_RUNNING else FC0_STATUS_DONE)
                         else if r = 4 * 0x20 + 0x00238 then Some 50000 else None)\<rparr>"

definition clockman_never_done :: clockman where
  "clockman_never_done = clockman0
     \<lparr>hw_read := (\<lambda>t r. if r = 4 * 0x20 + 0x00234 then Some 0 else None)\<rparr>"

section \<open>A concrete clock tree\<close>

text \<open>Clock handles, and a clock framework in which \<^verbatim>\<open>clk_i2s\<close> has the parents
  \<^verbatim>\<open>xosc\<close> and \<^verbatim>\<open>pll_audio\<close>, \<^verbatim>\<open>clk_uart\<close> has the parents \<^verbatim>\<open>pll_sys_pri_ph\<close>,
  \<^verbatim>\<open>pll_video\<close> and \<^verbatim>\<open>xosc\<close> (the first entries of their \<^verbatim>\<open>.parents\<close> lists; the
  remaining ones are not registered), \<^verbatim>\<open>xosc\<close> runs at 50 MHz, \<^verbatim>\<open>pll_sys_pri_ph\<close> at
  100 MHz and \<^verbatim>\<open>pll_video\<close> is not running. The driver's globals are as after probe:
  an empty change cache and the three cached handles.\<close>

definition hw_clk_i2s :: clk_hw where "hw_clk_i2s = Some 0"
definition hw_xosc :: clk_hw where "hw_xosc = Some 1"
definition hw_pll_audio :: clk_hw where "hw_pll_audio = Some 2"
definition hw_pll_audio_core :: clk_hw where "hw_pll_audio_core = Some 3"
definition hw_clk_uart :: clk_hw where "hw_clk_uart = Some 4"
definition hw_pll_sys_pri_ph :: clk_hw where "hw_pll_sys_pri_ph = Some 5"
definition hw_pll_video :: clk_hw where "hw_pll_video = Some 6"

definition rp1_framework :: clk_framework where
  "rp1_framework =
     \<lparr>clk_hw_get_parent_by_index =
        (\<lambda>h i. if h = hw_clk_i2s
                 then (if i = 0 then hw_xosc else if i = 1 then hw_pll_audio else None)
               else if h = hw_clk_uart
                 then (if i = 0 then hw_pll_sys_pri_ph else if i = 1 then hw_pll_video
                       else if i = 2 then hw_xosc else None)
               else None),
      clk_hw_get_parent = (\<lambda>h. if h = hw_pll_audio then hw_pll_audio_core else None),
      clk_hw_get_rate =
        (\<lambda>h. if h = hw_xosc then 50000000 else if h = hw_pll_sys_pri_ph then 100000000 else 0)\<rparr>"

definition rp1_globals :: clk_globals where
  "rp1_globals = \<lparr>rp1_clk_chg_tree = (\<lambda>i. \<lparr>chg_hw = None, new_rate = 0\<rparr>),
                   clk_xosc = hw_xosc, clk_audio = hw_pll_audio, clk_i2s = hw_clk_i2s\<rparr>"


section \<open>Polling loops\<close>

text \<open>Waiting only lets time pass: a poll loop returns the register bank it was
  given, at a later time. It returns whenever the clock moves forward from one
  poll to the next.\<close>

lemma cpu_relax_simps [simp]:
  "regs (cpu_relax s) = regs s" "regs_lock (cpu_relax s) = regs_lock s"
  "wlog (cpu_relax s) = wlog s" "hw_read (cpu_relax s) = hw_read s"
  "relax (cpu_relax s) = relax s" "now (cpu_relax s) = relax s (now s)"
  by (simp_all add: cpu_relax_def)

lemma cpu_relax_now_update [simp]: "(cpu_relax s)\<lparr>now := t\<rparr> = s\<lparr>now := t\<rparr>"
  by (simp add: cpu_relax_def)

lemma poll_measure: "\<not> t < n \<Longrightarrow> n < r \<Longrightarrow> Suc t - r < Suc t - (n::nat)"
  by arith


lemma fc_wait_idle_frame:
  assumes "fc_wait_idle s r timeout = Some y"
  shows "\<exists>t. fst y = s\<lparr>now := t\<rparr>"
proof (rule fc_wait_idle.raw_induct
    [where P = "\<lambda>s r timeout y. \<exists>t. fst y = s\<lparr>now := t\<rparr>", OF _ assms])
  fix f s r timeout y
  assume IH: "\<And>s r timeout y. f s r timeout = Some y \<Longrightarrow> \<exists>t. fst y = s\<lparr>now := t\<rparr>"
    and body: "(if (clockman_read s r AND FC0_STATUS_RUNNING) \<noteq> 0 then
                  (if ktime_after (now s) timeout then Some (s, False)
                   else f (cpu_relax s) r timeout)
                else Some (s, True)) = Some y"
  show "\<exists>t. fst y = s\<lparr>now := t\<rparr>"
  proof (cases "(clockman_read s r AND FC0_STATUS_RUNNING) \<noteq> 0 \<and> \<not> ktime_after (now s) timeout")
    case True
    with body have "f (cpu_relax s) r timeout = Some y" by simp
    then have "\<exists>t. fst y = (cpu_relax s)\<lparr>now := t\<rparr>" by (rule IH)
    then show ?thesis by simp
  next
    case False
    with body have "fst y = s" by (auto split: if_splits)
    then have "fst y = s\<lparr>now := now s\<rparr>" by simp
    then show ?thesis by blast
  qed
qed

lemma fc_wait_done_frame:
  assumes "fc_wait_done s r timeout = Some y"
  shows "\<exists>t. fst y = s\<lparr>now := t\<rparr>"
proof (rule fc_wait_done.raw_induct
    [where P = "\<lambda>s r timeout y. \<exists>t. fst y = s\<lparr>now := t\<rparr>", OF _ assms])
  fix f s r timeout y
  assume IH: "\<And>s r timeout y. f s r timeout = Some y \<Longrightarrow> \<exists>t. fst y = s\<lparr>now := t\<rparr>"
    and body: "(if (clockman_read s r AND FC0_STATUS_DONE) = 0 then
                  (if ktime_after (now s) timeout then Some (s, False)
                   else f (cpu_relax s) r timeout)
                else Some (s, True)) = Some y"
  show "\<exists>t. fst y = s\<lparr>now := t\<rparr>"
  proof (cases "(clockman_read s r AND FC0_STATUS_DONE) = 0 \<and> \<not> ktime_after (now s) timeout")
    case True
    with body have "f (cpu_relax s) r timeout = Some y" by simp
    then have "\<exists>t. fst y = (cpu_relax s)\<lparr>now := t\<rparr>" by (rule IH)
    then show ?thesis by simp
  next
    case False
    with body have "fst y = s" by (auto split: if_splits)
    then have "fst y = s\<lparr>now := now s\<rparr>" by simp
    then show ?thesis by blast
  qed
qed


lemma fc_wait_idle_terminates:
  assumes "\<forall>t. t < relax s t"
  shows "\<exists>y. fc_wait_idle s r timeout = Some y"
  using assms
proof (induction "Suc timeout - now s" arbitrary: s rule: less_induct)
  case less
  show ?case
  proof (cases "(clockman_read s r AND FC0_STATUS_RUNNING) \<noteq> 0 \<and> \<not> ktime_after (now s) timeout")
    case True
    from less.prems have "now s < relax s (now s)" by blast
    with True have "Suc timeout - now (cpu_relax s) < Suc timeout - now s"
      by (simp add: ktime_after_def poll_measure)
    moreover have "\<forall>t. t < relax (cpu_relax s) t" using less.prems by simp
    ultimately have "\<exists>y. fc_wait_idle (cpu_relax s) r timeout = Some y"
      by (rule less.hyps)
    with True show ?thesis by (subst fc_wait_idle.simps) simp
  next
    case False
    then show ?thesis by (subst fc_wait_idle.simps) auto
  qed
qed

lemma fc_wait_done_terminates:
  assumes "\<forall>t. t < relax s t"
  shows "\<exists>y. fc_wait_done s r timeout = Some y"
  using assms
proof (induction "Suc timeout - now s" arbitrary: s rule: less_induct)
  case less
  show ?case
  proof (cases "(clockman_read s r AND FC0_STATUS_DONE) = 0 \<and> \<not> ktime_after (now s) timeout")
    case True
    from less.prems have "now s < relax s (now s)" by blast
    with True have "Suc timeout - now (cpu_relax s) < Suc timeout - now s"
      by (simp add: ktime_after_def poll_measure)
    moreover have "\<forall>t. t < relax (cpu_relax s) t" using less.prems by simp
    ultimately have "\<exists>y. fc_wait_done (cpu_relax s) r timeout = Some y"
      by (rule less.hyps)
    with True show ?thesis by (subst fc_wait_done.simps) simp
  next
    case False
    then show ?thesis by (subst fc_wait_done.simps) auto
  qed
qed

text \<open>A poll whose bit never changes ends by timeout.\<close>

lemma pll_wait_lock_stuck:
  assumes "pll_wait_lock s r timeout = Some y"
    and "\<forall>t. (clockman_read (s\<lparr>now := t\<rparr>) r AND PLL_CS_LOCK) = 0"
  shows "snd y = False"
proof -
  have "(\<forall>t. (clockman_read (s\<lparr>now := t\<rparr>) r AND PLL_CS_LOCK) = 0) \<longrightarrow> snd y = False"
  proof (rule pll_wait_lock.raw_induct
      [where P = "\<lambda>s r timeout y. (\<forall>t. (clockman_read (s\<lparr>now := t\<rparr>) r AND PLL_CS_LOCK) = 0) \<longrightarrow> snd y = False", OF _ assms(1)])
    fix f s r timeout y
    assume IH: "\<And>s r timeout y. f s r timeout = Some y \<Longrightarrow>
                  (\<forall>t. (clockman_read (s\<lparr>now := t\<rparr>) r AND PLL_CS_LOCK) = 0) \<longrightarrow> snd y = False"
      and body: "(if (clockman_read s r AND PLL_CS_LOCK) = 0 then
                    (if ktime_after (now s) timeout then Some (s, False)
                     else f (cpu_relax s) r timeout)
                  else Some (s, True)) = Some y"
    show "(\<forall>t. (clockman_read (s\<lparr>now := t\<rparr>) r AND PLL_CS_LOCK) = 0) \<longrightarrow> snd y = False"
    proof
      assume all: "\<forall>t. (clockman_read (s\<lparr>now := t\<rparr>) r AND PLL_CS_LOCK) = 0"
      have "s\<lparr>now := now s\<rparr> = s" by simp
      with all [rule_format, of "now s"] have here: "(clockman_read s r AND PLL_CS_LOCK) = 0" by simp
      show "snd y = False"
      proof (cases "ktime_after (now s) timeout")
        case True
        with body here show ?thesis by auto
      next
        case False
        with body here have "f (cpu_relax s) r timeout = Some y" by simp
        from IH [OF this] all show ?thesis by simp
      qed
    qed
  qed
  with assms(2) show ?thesis by blast
qed

text \<open>A poll loop gives up when the bit it waits for never changes.\<close>

lemma fc_wait_idle_stuck:
  assumes "fc_wait_idle s r timeout = Some y"
    and "\<forall>t. (clockman_read (s\<lparr>now := t\<rparr>) r AND FC0_STATUS_RUNNING) \<noteq> 0"
  shows "snd y = False"
proof -
  have "(\<forall>t. (clockman_read (s\<lparr>now := t\<rparr>) r AND FC0_STATUS_RUNNING) \<noteq> 0) \<longrightarrow> snd y = False"
  proof (rule fc_wait_idle.raw_induct
      [where P = "\<lambda>s r timeout y. (\<forall>t. (clockman_read (s\<lparr>now := t\<rparr>) r AND FC0_STATUS_RUNNING) \<noteq> 0) \<longrightarrow> snd y = False", OF _ assms(1)])
    fix f s r timeout y
    assume IH: "\<And>s r timeout y. f s r timeout = Some y \<Longrightarrow>
                  (\<forall>t. (clockman_read (s\<lparr>now := t\<rparr>) r AND FC0_STATUS_RUNNING) \<noteq> 0) \<longrightarrow> snd y = False"
      and body: "(if (clockman_read s r AND FC0_STATUS_RUNNING) \<noteq> 0 then
                    (if ktime_after (now s) timeout then Some (s, False)
                     else f (cpu_relax s) r timeout)
                  else Some (s, True)) = Some y"
    show "(\<forall>t. (clockman_read (s\<lparr>now := t\<rparr>) r AND FC0_STATUS_RUNNING) \<noteq> 0) \<longrightarrow> snd y = False"
    proof
      assume all: "\<forall>t. (clockman_read (s\<lparr>now := t\<rparr>) r AND FC0_STATUS_RUNNING) \<noteq> 0"
      have "s\<lparr>now := now s\<rparr> = s" by simp
      with all [rule_format, of "now s"] have here: "(clockman_read s r AND FC0_STATUS_RUNNING) \<noteq> 0" by simp
      show "snd y = False"
      proof (cases "ktime_after (now s) timeout")
        case True
        with body here show ?thesis by auto
      next
        case False
        with body here have "f (cpu_relax s) r timeout = Some y" by simp
        from IH [OF this] all show ?thesis by simp
      qed
    qed
  qed
  with assms(2) show ?thesis by blast
qed

lemma fc_wait_done_stuck:
  assumes "fc_wait_done s r timeout = Some y"
    and "\<forall>t. (clockman_read (s\<lparr>now := t\<rparr>) r AND FC0_STATUS_DONE) = 0"
  shows "snd y = False"
proof -
  have "(\<forall>t. (clockman_read (s\<lparr>now := t\<rparr>) r AND FC0_STATUS_DONE) = 0) \<longrightarrow> snd y = False"
  proof (rule fc_wait_done.raw_induct
      [where P = "\<lambda>s r timeout y. (\<forall>t. (clockman_read (s\<lparr>now := t\<rparr>) r AND FC0_STATUS_DONE) = 0) \<longrightarrow> snd y = False", OF _ assms(1)])
    fix f s r timeout y
    assume IH: "\<And>s r timeout y. f s r timeout = Some y \<Longrightarrow>
                  (\<forall>t. (clockman_read (s\<lparr>now := t\<rparr>) r AND FC0_STATUS_DONE) = 0) \<longrightarrow> snd y = False"
      and body: "(if (clockman_read s r AND FC0_STATUS_DONE) = 0 then
                    (if ktime_after (now s) timeout then Some (s, False)
                     else f (cpu_relax s) r timeout)
                  else Some (s, True)) = Some y"
    show "(\<forall>t. (clockman_read (s\<lparr>now := t\<rparr>) r AND FC0_STATUS_DONE) = 0) \<longrightarrow> snd y = False"
    proof
      assume all: "\<forall>t. (clockman_read (s\<lparr>now := t\<rparr>) r AND FC0_STATUS_DONE) = 0"
      have "s\<lparr>now := now s\<rparr> = s" by simp
      with all [rule_format, of "now s"] have here: "(clockman_read s r AND FC0_STATUS_DONE) = 0" by simp
      show "snd y = False"
      proof (cases "ktime_after (now s) timeout")
        case True
        with body here show ?thesis by auto
      next
        case False
        with body here have "f (cpu_relax s) r timeout = Some y" by simp
        from IH [OF this] all show ?thesis by simp
      qed
    qed
  qed
  with assms(2) show ?thesis by blast
qed

text \<open>A timeout exit comes at the first poll after the deadline: when polls are at
  most \<open>d\<close> apart and the bit keeps its value from the start of the wait until \<open>d\<close>
  after the deadline, the loop gives up, later than the deadline and at most \<open>d\<close>
  later.\<close>

lemma fc_wait_idle_window:
  assumes adv: "\<forall>t. t < relax s t"
    and gap: "\<forall>t. relax s t \<le> t + d"
    and stuck: "\<forall>t. now s \<le> t \<and> t \<le> timeout + d \<longrightarrow>
                  (clockman_read (s\<lparr>now := t\<rparr>) r AND FC0_STATUS_RUNNING) \<noteq> 0"
    and start: "now s \<le> timeout + d"
  shows "\<exists>t'. fc_wait_idle s r timeout = Some (s\<lparr>now := t'\<rparr>, False)
              \<and> timeout < t' \<and> t' \<le> timeout + d \<and> now s \<le> t'"
  using assms
proof (induction "Suc timeout - now s" arbitrary: s rule: less_induct)
  case less
  have "s\<lparr>now := now s\<rparr> = s" by simp
  with less.prems(3) [rule_format, of "now s"] less.prems(4)
  have here: "(clockman_read s r AND FC0_STATUS_RUNNING) \<noteq> 0" by simp
  show ?case
  proof (cases "ktime_after (now s) timeout")
    case True
    have "fc_wait_idle s r timeout = Some (s, False)"
      using here True by (subst fc_wait_idle.simps) simp
    with True less.prems(4) show ?thesis
      by (intro exI [of _ "now s"]) (simp add: ktime_after_def)
  next
    case False
    from less.prems(1) have lt: "now s < relax s (now s)" by blast
    from less.prems(2) have le: "relax s (now s) \<le> now s + d" by blast
    from False have nt: "now s \<le> timeout" by (simp add: ktime_after_def)
    from False lt have m: "Suc timeout - now (cpu_relax s) < Suc timeout - now s"
      by (simp add: ktime_after_def poll_measure)
    have a: "\<forall>t. t < relax (cpu_relax s) t" using less.prems(1) by simp
    have g: "\<forall>t. relax (cpu_relax s) t \<le> t + d" using less.prems(2) by simp
    have st: "\<forall>t. now (cpu_relax s) \<le> t \<and> t \<le> timeout + d \<longrightarrow>
                  (clockman_read ((cpu_relax s)\<lparr>now := t\<rparr>) r AND FC0_STATUS_RUNNING) \<noteq> 0"
    proof (intro allI impI)
      fix t assume "now (cpu_relax s) \<le> t \<and> t \<le> timeout + d"
      with lt have "now s \<le> t \<and> t \<le> timeout + d" by simp
      with less.prems(3) show "(clockman_read ((cpu_relax s)\<lparr>now := t\<rparr>) r AND FC0_STATUS_RUNNING) \<noteq> 0"
        by simp
    qed
    have s0: "now (cpu_relax s) \<le> timeout + d" using le nt by simp
    from less.hyps [OF m a g st s0]
    obtain t' where r: "fc_wait_idle (cpu_relax s) r timeout = Some ((cpu_relax s)\<lparr>now := t'\<rparr>, False)"
      and b: "timeout < t'" "t' \<le> timeout + d" "now (cpu_relax s) \<le> t'"
      by blast
    from r here False have "fc_wait_idle s r timeout = Some (s\<lparr>now := t'\<rparr>, False)"
      by (subst fc_wait_idle.simps) simp
    with b lt show ?thesis by auto
  qed
qed

lemma fc_wait_done_window:
  assumes adv: "\<forall>t. t < relax s t"
    and gap: "\<forall>t. relax s t \<le> t + d"
    and stuck: "\<forall>t. now s \<le> t \<and> t \<le> timeout + d \<longrightarrow>
                  (clockman_read (s\<lparr>now := t\<rparr>) r AND FC0_STATUS_DONE) = 0"
    and start: "now s \<le> timeout + d"
  shows "\<exists>t'. fc_wait_done s r timeout = Some (s\<lparr>now := t'\<rparr>, False)
              \<and> timeout < t' \<and> t' \<le> timeout + d \<and> now s \<le> t'"
  using assms
proof (induction "Suc timeout - now s" arbitrary: s rule: less_induct)
  case less
  have "s\<lparr>now := now s\<rparr> = s" by simp
  with less.prems(3) [rule_format, of "now s"] less.prems(4)
  have here: "(clockman_read s r AND FC0_STATUS_DONE) = 0" by simp
  show ?case
  proof (cases "ktime_after (now s) timeout")
    case True
    have "fc_wait_done s r timeout = Some (s, False)"
      using here True by (subst fc_wait_done.simps) simp
    with True less.prems(4) show ?thesis
      by (intro exI [of _ "now s"]) (simp add: ktime_after_def)
  next
    case False
    from less.prems(1) have lt: "now s < relax s (now s)" by blast
    from less.prems(2) have le: "relax s (now s) \<le> now s + d" by blast
    from False have nt: "now s \<le> timeout" by (simp add: ktime_after_def)
    from False lt have m: "Suc timeout - now (cpu_relax s) < Suc timeout - now s"
      by (simp add: ktime_after_def poll_measure)
    have a: "\<forall>t. t < relax (cpu_relax s) t" using less.prems(1) by simp
    have g: "\<forall>t. relax (cpu_relax s) t \<le> t + d" using less.prems(2) by simp
    have st: "\<forall>t. now (cpu_relax s) \<le> t \<and> t \<le> timeout + d \<longrightarrow>
                  (clockman_read ((cpu_relax s)\<lparr>now := t\<rparr>) r AND FC0_STATUS_DONE) = 0"
    proof (intro allI impI)
      fix t assume "now (cpu_relax s) \<le> t \<and> t \<le> timeout + d"
      with lt have "now s \<le> t \<and> t \<le> timeout + d" by simp
      with less.prems(3) show "(clockman_read ((cpu_relax s)\<lparr>now := t\<rparr>) r AND FC0_STATUS_DONE) = 0"
        by simp
    qed
    have s0: "now (cpu_relax s) \<le> timeout + d" using le nt by simp
    from less.hyps [OF m a g st s0]
    obtain t' where r: "fc_wait_done (cpu_relax s) r timeout = Some ((cpu_relax s)\<lparr>now := t'\<rparr>, False)"
      and b: "timeout < t'" "t' \<le> timeout + d" "now (cpu_relax s) \<le> t'"
      by blast
    from r here False have "fc_wait_done s r timeout = Some (s\<lparr>now := t'\<rparr>, False)"
      by (subst fc_wait_done.simps) simp
    with b lt show ?thesis by auto
  qed
qed

section \<open>Register bank: basic facts\<close>

lemma write_simps [simp]:
  "regs (clockman_write s r v) = (regs s)(r := v)"
  "regs_lock (clockman_write s r v) = regs_lock s"
  "wlog (clockman_write s r v) = wlog s @ [(r, v)]"
  "now (clockman_write s r v) = now s"
  "hw_read (clockman_write s r v) = hw_read s"
  "relax (clockman_write s r v) = relax s"
  by (simp_all add: clockman_write_def)

lemma lock_simps [simp]:
  "regs (spin_lock s) = regs s" "regs_lock (spin_lock s) = True"
  "wlog (spin_lock s) = wlog s" "now (spin_lock s) = now s"
  "hw_read (spin_lock s) = hw_read s" "relax (spin_lock s) = relax s"
  "regs (spin_unlock s) = regs s" "regs_lock (spin_unlock s) = False"
  "wlog (spin_unlock s) = wlog s" "now (spin_unlock s) = now s"
  "hw_read (spin_unlock s) = hw_read s" "relax (spin_unlock s) = relax s"
  by (simp_all add: spin_lock_def spin_unlock_def)

lemma clockman_read_driven:
  "hw_read s (now s) r = Some v \<Longrightarrow> clockman_read s r = v"
  by (simp add: clockman_read_def)

lemma clockman_read_stored:
  "hw_read s (now s) r = None \<Longrightarrow> clockman_read s r = regs s r"
  by (simp add: clockman_read_def)

lemma field_and_mask: "(set_register_field x v m sh) AND m = push_bit sh v AND m"
  by (simp add: set_register_field_def bit_eq_iff bit_simps) blast

lemma sec_field_readback:
  assumes "dv \<le> 19"
  shows "drop_bit PLL_SEC_DIV_SHIFT
           (set_register_field x dv PLL_SEC_DIV_MASK PLL_SEC_DIV_SHIFT AND PLL_SEC_DIV_MASK) = (dv::u32)"
proof -
  have "dv < 2 ^ 5" using assms by (simp add: word_le_nat_alt word_less_nat_alt)
  then have dv: "dv AND mask 5 = dv" by (simp add: less_mask_eq)
  have m: "PLL_SEC_DIV_MASK = push_bit 8 (mask 5)" by (simp add: PLL_SEC_DIV_MASK_def mask_eq_exp_minus_1)
  have "push_bit 8 dv AND push_bit 8 (mask 5) = push_bit 8 (dv AND mask 5 :: u32)"
    by (simp add: push_bit_and)
  moreover have "drop_bit 8 (push_bit 8 (dv AND mask 5 :: u32)) = dv AND mask 5"
    by (rule bit_word_eqI) (auto simp add: bit_simps)
  ultimately have "drop_bit 8 (push_bit 8 dv AND push_bit 8 (mask 5)) = dv"
    using dv by simp
  then show ?thesis by (simp add: field_and_mask m PLL_SEC_DIV_SHIFT_def)
qed

section \<open>Frequency counter: termination and timeouts\<close>

lemma now_update_simps [simp]:
  "clockman_read (s\<lparr>now := t\<rparr>) r = (case hw_read s t r of Some v \<Rightarrow> v | None \<Rightarrow> regs s r)"
  by (simp add: clockman_read_def split: option.splits)

lemma fc_program_frame [simp]:
  "hw_read (fc_program s off ref src) = hw_read s"
  "relax (fc_program s off ref src) = relax s"
  "now (fc_program s off ref src) = now s"
  by (simp_all add: fc_program_def Let_def)

lemma measure_invalid_src:
  "src mod 32 = 0 \<or> src div 32 \<ge> FC_COUNT \<Longrightarrow> clockman_measure_clock s ref src = Some (s, 0)"
  by (simp add: clockman_measure_clock_def Let_def)

lemma measure_terminates:
  assumes adv: "\<forall>t. t < relax s t"
  shows "\<exists>y. clockman_measure_clock s ref src = Some y"
proof (cases "src mod 32 = 0 \<or> src div 32 \<ge> FC_COUNT")
  case True
  then show ?thesis by (simp add: measure_invalid_src)
next
  case False
  define st where "st = src div 32 * FC_SIZE + FC0_STATUS"
  from fc_wait_idle_terminates [OF adv] obtain s1 b1
    where idle: "fc_wait_idle s st (now s + FC_TIMEOUT_NS) = Some (s1, b1)" by fastforce
  from fc_wait_idle_frame [OF idle] obtain t1 where s1: "s1 = s\<lparr>now := t1\<rparr>" by auto
  define s2 where "s2 = fc_program s1 (src div 32 * FC_SIZE) ref (src mod 32)"
  have "\<forall>t. t < relax s2 t" using adv by (simp add: s2_def s1)
  from fc_wait_done_terminates [OF this] obtain s3 b3
    where dn: "fc_wait_done s2 st (now s2 + FC_TIMEOUT_NS) = Some (s3, b3)" by fastforce
  from False idle dn show ?thesis
    by (cases b1; cases b3) (simp_all add: clockman_measure_clock_def Let_def st_def s2_def)
qed

lemma measure_running_stuck:
  assumes adv: "\<forall>t. t < relax s t"
    and run: "\<forall>t. \<exists>v. hw_read s t (src div 32 * FC_SIZE + FC0_STATUS) = Some v
                      \<and> (v AND FC0_STATUS_RUNNING) \<noteq> 0"
  shows "\<exists>s'. clockman_measure_clock s ref src = Some (s', 0) \<and> wlog s' = wlog s
               \<and> regs s' = regs s \<and> regs_lock s' = regs_lock s"
proof (cases "src mod 32 = 0 \<or> src div 32 \<ge> FC_COUNT")
  case True
  then show ?thesis by (simp add: measure_invalid_src)
next
  case False
  define st where "st = src div 32 * FC_SIZE + FC0_STATUS"
  from fc_wait_idle_terminates [OF adv] obtain s1 b1
    where idle: "fc_wait_idle s st (now s + FC_TIMEOUT_NS) = Some (s1, b1)" by fastforce
  from fc_wait_idle_frame [OF idle] obtain t1 where s1: "s1 = s\<lparr>now := t1\<rparr>" by auto
  have "\<forall>t. (clockman_read (s\<lparr>now := t\<rparr>) st AND FC0_STATUS_RUNNING) \<noteq> 0"
  proof
    fix t
    from run obtain v where "hw_read s t st = Some v" "(v AND FC0_STATUS_RUNNING) \<noteq> 0"
      unfolding st_def by blast
    then show "(clockman_read (s\<lparr>now := t\<rparr>) st AND FC0_STATUS_RUNNING) \<noteq> 0" by simp
  qed
  from fc_wait_idle_stuck [OF idle this] have "b1 = False" by simp
  with False idle s1 show ?thesis
    by (simp add: clockman_measure_clock_def Let_def st_def)
qed

lemma measure_done_stuck:
  assumes adv: "\<forall>t. t < relax s t"
    and nodone: "\<forall>t. \<exists>v. hw_read s t (src div 32 * FC_SIZE + FC0_STATUS) = Some v
                      \<and> (v AND FC0_STATUS_DONE) = 0"
  shows "\<exists>s'. clockman_measure_clock s ref src = Some (s', 0)"
proof (cases "src mod 32 = 0 \<or> src div 32 \<ge> FC_COUNT")
  case True
  then show ?thesis by (simp add: measure_invalid_src)
next
  case False
  define st where "st = src div 32 * FC_SIZE + FC0_STATUS"
  from fc_wait_idle_terminates [OF adv] obtain s1 b1
    where idle: "fc_wait_idle s st (now s + FC_TIMEOUT_NS) = Some (s1, b1)" by fastforce
  from fc_wait_idle_frame [OF idle] obtain t1 where s1: "s1 = s\<lparr>now := t1\<rparr>" by auto
  define s2 where "s2 = fc_program s1 (src div 32 * FC_SIZE) ref (src mod 32)"
  have "\<forall>t. t < relax s2 t" using adv by (simp add: s2_def s1)
  from fc_wait_done_terminates [OF this] obtain s3 b3
    where dn: "fc_wait_done s2 st (now s2 + FC_TIMEOUT_NS) = Some (s3, b3)" by fastforce
  have "\<forall>t. (clockman_read (s2\<lparr>now := t\<rparr>) st AND FC0_STATUS_DONE) = 0"
  proof
    fix t
    from nodone obtain v where "hw_read s t st = Some v" "(v AND FC0_STATUS_DONE) = 0"
      unfolding st_def by blast
    then show "(clockman_read (s2\<lparr>now := t\<rparr>) st AND FC0_STATUS_DONE) = 0"
      by (simp add: s2_def s1)
  qed
  from fc_wait_done_stuck [OF dn this] have "b3 = False" by simp
  with False idle dn show ?thesis
    by (cases b1) (simp_all add: clockman_measure_clock_def Let_def st_def s2_def)
qed

lemma measure_appends:
  assumes "clockman_measure_clock s ref src = Some (s', r)"
  shows "\<exists>rest. wlog s' = wlog s @ rest"
proof (cases "src mod 32 = 0 \<or> src div 32 \<ge> FC_COUNT")
  case True
  with assms show ?thesis by (simp add: measure_invalid_src)
next
  case False
  define st where "st = src div 32 * FC_SIZE + FC0_STATUS"
  from assms False obtain s1 b1
    where idle: "fc_wait_idle s st (now s + FC_TIMEOUT_NS) = Some (s1, b1)"
    by (auto simp add: clockman_measure_clock_def Let_def st_def split: option.splits)
  from fc_wait_idle_frame [OF idle] obtain t1 where s1: "s1 = s\<lparr>now := t1\<rparr>" by auto
  show ?thesis
  proof (cases b1)
    case False
    with assms \<open>\<not> (src mod 32 = 0 \<or> src div 32 \<ge> FC_COUNT)\<close> idle s1 show ?thesis
      by (auto simp add: clockman_measure_clock_def Let_def st_def)
  next
    case True
    define s2 where "s2 = fc_program s1 (src div 32 * FC_SIZE) ref (src mod 32)"
    have w2: "\<exists>rest. wlog s2 = wlog s @ rest" by (simp add: s2_def s1 fc_program_def Let_def)
    from assms \<open>\<not> (src mod 32 = 0 \<or> src div 32 \<ge> FC_COUNT)\<close> idle True obtain s3 b3
      where dn: "fc_wait_done s2 st (now s2 + FC_TIMEOUT_NS) = Some (s3, b3)"
      by (auto simp add: clockman_measure_clock_def Let_def st_def s2_def split: option.splits)
    from fc_wait_done_frame [OF dn] obtain t3 where s3: "s3 = s2\<lparr>now := t3\<rparr>" by auto
    from assms \<open>\<not> (src mod 32 = 0 \<or> src div 32 \<ge> FC_COUNT)\<close> idle True dn s3 w2
    show ?thesis
      by (cases b3) (auto simp add: clockman_measure_clock_def Let_def st_def s2_def fc_disable_def)
  qed
qed

text \<open>
  Claim C8 (amended). \<^verbatim>\<open>clockman_measure_clock\<close> never hangs: as long as the clock
  moves forward from one poll to the next it returns. When the decoded source
  index is 0 it returns 0 with the register bank untouched. It returns 0 with
  nothing written when RUNNING reads set at all times, and it returns 0 when DONE
  reads clear at all times. With polls at most \<open>d\<close> apart, it returns 0 with nothing
  written when RUNNING reads set from the call until \<open>d\<close> after the 100 ms deadline,
  and it returns 0 with the counter programmed and not disabled when, after an idle
  wait that ended at \<open>t1\<close>, DONE reads clear from \<open>t1\<close> until \<open>d\<close> after that wait's
  100 ms deadline; either return comes at the first poll after the deadline, at
  most \<open>d\<close> past it.
\<close>

theorem measure_clock_times_out:
  assumes adv: "\<forall>t. t < relax s t"
  shows "(\<exists>y. clockman_measure_clock s ref src = Some y)
       \<and> (src mod 32 = 0 \<longrightarrow> clockman_measure_clock s ref src = Some (s, 0))
       \<and> ((\<forall>t. \<exists>v. hw_read s t (src div 32 * FC_SIZE + FC0_STATUS) = Some v
                     \<and> (v AND FC0_STATUS_RUNNING) \<noteq> 0)
            \<longrightarrow> (\<exists>s'. clockman_measure_clock s ref src = Some (s', 0) \<and> wlog s' = wlog s))
       \<and> ((\<forall>t. \<exists>v. hw_read s t (src div 32 * FC_SIZE + FC0_STATUS) = Some v
                     \<and> (v AND FC0_STATUS_DONE) = 0)
            \<longrightarrow> (\<exists>s'. clockman_measure_clock s ref src = Some (s', 0)))
       \<and> ((\<forall>t. relax s t \<le> t + d) \<and> src mod 32 \<noteq> 0 \<and> src div 32 < FC_COUNT
            \<and> (\<forall>t. now s \<le> t \<and> t \<le> now s + FC_TIMEOUT_NS + d \<longrightarrow>
                   (\<exists>v. hw_read s t (src div 32 * FC_SIZE + FC0_STATUS) = Some v
                        \<and> (v AND FC0_STATUS_RUNNING) \<noteq> 0))
          \<longrightarrow> (\<exists>t'. clockman_measure_clock s ref src = Some (s\<lparr>now := t'\<rparr>, 0)
                    \<and> now s + FC_TIMEOUT_NS < t' \<and> t' \<le> now s + FC_TIMEOUT_NS + d))
       \<and> (\<forall>t1. (\<forall>t. relax s t \<le> t + d) \<and> src mod 32 \<noteq> 0 \<and> src div 32 < FC_COUNT
            \<and> fc_wait_idle s (src div 32 * FC_SIZE + FC0_STATUS) (now s + FC_TIMEOUT_NS)
                = Some (s\<lparr>now := t1\<rparr>, True)
            \<and> (\<forall>t. t1 \<le> t \<and> t \<le> t1 + FC_TIMEOUT_NS + d \<longrightarrow>
                   (\<exists>v. hw_read s t (src div 32 * FC_SIZE + FC0_STATUS) = Some v
                        \<and> (v AND FC0_STATUS_DONE) = 0))
          \<longrightarrow> (\<exists>t'. clockman_measure_clock s ref src
                      = Some ((fc_program (s\<lparr>now := t1\<rparr>) (src div 32 * FC_SIZE) ref
                                (src mod 32))\<lparr>now := t'\<rparr>, 0)
                    \<and> t1 + FC_TIMEOUT_NS < t' \<and> t' \<le> t1 + FC_TIMEOUT_NS + d))"
proof (intro conjI impI allI)
  show "\<exists>y. clockman_measure_clock s ref src = Some y"
    by (rule measure_terminates [OF adv])
next
  assume "src mod 32 = 0"
  then show "clockman_measure_clock s ref src = Some (s, 0)"
    by (simp add: measure_invalid_src)
next
  assume "\<forall>t. \<exists>v. hw_read s t (src div 32 * FC_SIZE + FC0_STATUS) = Some v
                 \<and> (v AND FC0_STATUS_RUNNING) \<noteq> 0"
  from measure_running_stuck [OF adv this]
  show "\<exists>s'. clockman_measure_clock s ref src = Some (s', 0) \<and> wlog s' = wlog s"
    by blast
next
  assume "\<forall>t. \<exists>v. hw_read s t (src div 32 * FC_SIZE + FC0_STATUS) = Some v
                 \<and> (v AND FC0_STATUS_DONE) = 0"
  from measure_done_stuck [OF adv this]
  show "\<exists>s'. clockman_measure_clock s ref src = Some (s', 0)" .
next
  define st where "st = src div 32 * FC_SIZE + FC0_STATUS"
  assume a: "(\<forall>t. relax s t \<le> t + d) \<and> src mod 32 \<noteq> 0 \<and> src div 32 < FC_COUNT
            \<and> (\<forall>t. now s \<le> t \<and> t \<le> now s + FC_TIMEOUT_NS + d \<longrightarrow>
                   (\<exists>v. hw_read s t (src div 32 * FC_SIZE + FC0_STATUS) = Some v
                        \<and> (v AND FC0_STATUS_RUNNING) \<noteq> 0))"
  then have gap: "\<forall>t. relax s t \<le> t + d" by blast
  have stuck: "\<forall>t. now s \<le> t \<and> t \<le> now s + FC_TIMEOUT_NS + d \<longrightarrow>
                  (clockman_read (s\<lparr>now := t\<rparr>) st AND FC0_STATUS_RUNNING) \<noteq> 0"
  proof (intro allI impI)
    fix t assume "now s \<le> t \<and> t \<le> now s + FC_TIMEOUT_NS + d"
    with a obtain v where "hw_read s t st = Some v" "(v AND FC0_STATUS_RUNNING) \<noteq> 0"
      unfolding st_def by blast
    then show "(clockman_read (s\<lparr>now := t\<rparr>) st AND FC0_STATUS_RUNNING) \<noteq> 0" by simp
  qed
  have "now s \<le> now s + FC_TIMEOUT_NS + d" by simp
  from fc_wait_idle_window [OF adv gap stuck this]
  obtain t' where idle: "fc_wait_idle s st (now s + FC_TIMEOUT_NS) = Some (s\<lparr>now := t'\<rparr>, False)"
    and b: "now s + FC_TIMEOUT_NS < t'" "t' \<le> now s + FC_TIMEOUT_NS + d"
    by blast
  from a idle have "clockman_measure_clock s ref src = Some (s\<lparr>now := t'\<rparr>, 0)"
    by (simp add: clockman_measure_clock_def Let_def st_def not_le [symmetric])
  with b show "\<exists>t'. clockman_measure_clock s ref src = Some (s\<lparr>now := t'\<rparr>, 0)
                    \<and> now s + FC_TIMEOUT_NS < t' \<and> t' \<le> now s + FC_TIMEOUT_NS + d"
    by blast
next
  fix t1
  define st where "st = src div 32 * FC_SIZE + FC0_STATUS"
  define s2 where "s2 = fc_program (s\<lparr>now := t1\<rparr>) (src div 32 * FC_SIZE) ref (src mod 32)"
  assume a: "(\<forall>t. relax s t \<le> t + d) \<and> src mod 32 \<noteq> 0 \<and> src div 32 < FC_COUNT
            \<and> fc_wait_idle s (src div 32 * FC_SIZE + FC0_STATUS) (now s + FC_TIMEOUT_NS)
                = Some (s\<lparr>now := t1\<rparr>, True)
            \<and> (\<forall>t. t1 \<le> t \<and> t \<le> t1 + FC_TIMEOUT_NS + d \<longrightarrow>
                   (\<exists>v. hw_read s t (src div 32 * FC_SIZE + FC0_STATUS) = Some v
                        \<and> (v AND FC0_STATUS_DONE) = 0))"
  then have gap: "\<forall>t. relax s t \<le> t + d" by blast
  have n2: "now s2 = t1" by (simp add: s2_def)
  have adv2: "\<forall>t. t < relax s2 t" using adv by (simp add: s2_def)
  have gap2: "\<forall>t. relax s2 t \<le> t + d" using gap by (simp add: s2_def)
  have stuck: "\<forall>t. now s2 \<le> t \<and> t \<le> now s2 + FC_TIMEOUT_NS + d \<longrightarrow>
                  (clockman_read (s2\<lparr>now := t\<rparr>) st AND FC0_STATUS_DONE) = 0"
  proof (intro allI impI)
    fix t assume "now s2 \<le> t \<and> t \<le> now s2 + FC_TIMEOUT_NS + d"
    with a n2 obtain v where "hw_read s t st = Some v" "(v AND FC0_STATUS_DONE) = 0"
      unfolding st_def by auto
    then show "(clockman_read (s2\<lparr>now := t\<rparr>) st AND FC0_STATUS_DONE) = 0"
      by (simp add: s2_def)
  qed
  have "now s2 \<le> now s2 + FC_TIMEOUT_NS + d" by simp
  from fc_wait_done_window [OF adv2 gap2 stuck this]
  obtain t' where dn: "fc_wait_done s2 st (now s2 + FC_TIMEOUT_NS) = Some (s2\<lparr>now := t'\<rparr>, False)"
    and b: "now s2 + FC_TIMEOUT_NS < t'" "t' \<le> now s2 + FC_TIMEOUT_NS + d"
    by blast
  from a dn have "clockman_measure_clock s ref src = Some (s2\<lparr>now := t'\<rparr>, 0)"
    by (simp add: clockman_measure_clock_def Let_def st_def s2_def not_le [symmetric])
  with b n2 show "\<exists>t'. clockman_measure_clock s ref src
                      = Some ((fc_program (s\<lparr>now := t1\<rparr>) (src div 32 * FC_SIZE) ref
                                (src mod 32))\<lparr>now := t'\<rparr>, 0)
                    \<and> t1 + FC_TIMEOUT_NS < t' \<and> t' \<le> t1 + FC_TIMEOUT_NS + d"
    unfolding s2_def by auto
qed

theorem measure_clock_times_out_witness:
  "(\<forall>t. t < relax clockman_busy t) \<and> (\<forall>t. relax clockman_busy t \<le> t + 40000000)
   \<and> (\<forall>t. \<exists>v. hw_read clockman_busy t (132 div 32 * FC_SIZE + FC0_STATUS) = Some v
               \<and> (v AND FC0_STATUS_RUNNING) \<noteq> 0)
   \<and> (\<exists>t'. clockman_measure_clock clockman_busy 50000000 132
              = Some (clockman_busy\<lparr>now := t'\<rparr>, 0)
            \<and> now clockman_busy + FC_TIMEOUT_NS < t'
            \<and> t' \<le> now clockman_busy + FC_TIMEOUT_NS + 40000000)
   \<and> clockman_measure_clock clockman_busy 50000000 32 = Some (clockman_busy, 0)
   \<and> (\<forall>t. t < relax clockman_never_done t)
   \<and> (\<forall>t. relax clockman_never_done t \<le> t + 40000000)
   \<and> fc_wait_idle clockman_never_done (132 div 32 * FC_SIZE + FC0_STATUS)
         (now clockman_never_done + FC_TIMEOUT_NS)
       = Some (clockman_never_done\<lparr>now := 0\<rparr>, True)
   \<and> (\<forall>t. \<exists>v. hw_read clockman_never_done t (132 div 32 * FC_SIZE + FC0_STATUS) = Some v
               \<and> (v AND FC0_STATUS_DONE) = 0)
   \<and> (\<exists>t'. clockman_measure_clock clockman_never_done 50000000 132
              = Some ((fc_program (clockman_never_done\<lparr>now := 0\<rparr>) (132 div 32 * FC_SIZE)
                         50000000 (132 mod 32))\<lparr>now := t'\<rparr>, 0)
            \<and> 0 + FC_TIMEOUT_NS < t' \<and> t' \<le> 0 + FC_TIMEOUT_NS + 40000000)"
proof -
  have adv: "\<forall>t. t < relax clockman_busy t"
    by (simp add: clockman_busy_def clockman0_def)
  have gap: "\<forall>t. relax clockman_busy t \<le> t + 40000000"
    by (simp add: clockman_busy_def clockman0_def)
  have run: "\<forall>t. \<exists>v. hw_read clockman_busy t (132 div 32 * FC_SIZE + FC0_STATUS) = Some v
               \<and> (v AND FC0_STATUS_RUNNING) \<noteq> 0"
    by (simp add: clockman_busy_def clockman0_def FC_SIZE_def FC0_STATUS_def
        FC0_STATUS_RUNNING_def)
  have valid: "(132 :: u32) mod 32 \<noteq> 0 \<and> (132 :: u32) div 32 < FC_COUNT"
    by (simp add: FC_COUNT_def)
  have zero: "(32 :: u32) mod 32 = 0" by simp
  have p1: "(\<forall>t. relax clockman_busy t \<le> t + 40000000)
      \<and> (132 :: u32) mod 32 \<noteq> 0 \<and> (132 :: u32) div 32 < FC_COUNT
      \<and> (\<forall>t. now clockman_busy \<le> t \<and> t \<le> now clockman_busy + FC_TIMEOUT_NS + 40000000 \<longrightarrow>
             (\<exists>v. hw_read clockman_busy t (132 div 32 * FC_SIZE + FC0_STATUS) = Some v
                  \<and> (v AND FC0_STATUS_RUNNING) \<noteq> 0))"
  proof (intro conjI allI impI)
    fix t show "relax clockman_busy t \<le> t + 40000000" using gap by (rule spec)
  next
    show "(132 :: u32) mod 32 \<noteq> 0" using valid by (rule conjunct1)
    show "(132 :: u32) div 32 < FC_COUNT" using valid by (rule conjunct2)
    fix t
    show "\<exists>v. hw_read clockman_busy t (132 div 32 * FC_SIZE + FC0_STATUS) = Some v
                  \<and> (v AND FC0_STATUS_RUNNING) \<noteq> 0"
      using run by (rule spec)
  qed
  note busy = measure_clock_times_out [OF adv, where src = 132 and ref = 50000000
      and d = 40000000]
  from busy [THEN conjunct2, THEN conjunct2, THEN conjunct2, THEN conjunct2, THEN conjunct1,
      THEN mp, OF p1]
  have r1: "\<exists>t'. clockman_measure_clock clockman_busy 50000000 132
              = Some (clockman_busy\<lparr>now := t'\<rparr>, 0)
            \<and> now clockman_busy + FC_TIMEOUT_NS < t'
            \<and> t' \<le> now clockman_busy + FC_TIMEOUT_NS + 40000000" .
  note reserved = measure_clock_times_out [OF adv, where src = 32 and ref = 50000000]
  from reserved [THEN conjunct2, THEN conjunct1, THEN mp, OF zero]
  have r2: "clockman_measure_clock clockman_busy 50000000 32 = Some (clockman_busy, 0)" .
  have adv': "\<forall>t. t < relax clockman_never_done t"
    by (simp add: clockman_never_done_def clockman0_def)
  have gap': "\<forall>t. relax clockman_never_done t \<le> t + 40000000"
    by (simp add: clockman_never_done_def clockman0_def)
  have idle: "fc_wait_idle clockman_never_done (132 div 32 * FC_SIZE + FC0_STATUS)
         (now clockman_never_done + FC_TIMEOUT_NS)
       = Some (clockman_never_done\<lparr>now := 0\<rparr>, True)"
    by (simp add: clockman_never_done_def clockman0_def clockman_read_def FC_SIZE_def
        FC0_STATUS_def fc_wait_idle.simps)
  have nd: "\<forall>t. \<exists>v. hw_read clockman_never_done t (132 div 32 * FC_SIZE + FC0_STATUS) = Some v
               \<and> (v AND FC0_STATUS_DONE) = 0"
    by (simp add: clockman_never_done_def clockman0_def FC_SIZE_def FC0_STATUS_def)
  have p3: "(\<forall>t. relax clockman_never_done t \<le> t + 40000000)
      \<and> (132 :: u32) mod 32 \<noteq> 0 \<and> (132 :: u32) div 32 < FC_COUNT
      \<and> fc_wait_idle clockman_never_done (132 div 32 * FC_SIZE + FC0_STATUS)
            (now clockman_never_done + FC_TIMEOUT_NS)
          = Some (clockman_never_done\<lparr>now := 0\<rparr>, True)
      \<and> (\<forall>t. 0 \<le> t \<and> t \<le> 0 + FC_TIMEOUT_NS + 40000000 \<longrightarrow>
             (\<exists>v. hw_read clockman_never_done t (132 div 32 * FC_SIZE + FC0_STATUS) = Some v
                  \<and> (v AND FC0_STATUS_DONE) = 0))"
  proof (intro conjI allI impI)
    fix t show "relax clockman_never_done t \<le> t + 40000000" using gap' by (rule spec)
  next
    show "(132 :: u32) mod 32 \<noteq> 0" using valid by (rule conjunct1)
    show "(132 :: u32) div 32 < FC_COUNT" using valid by (rule conjunct2)
    show "fc_wait_idle clockman_never_done (132 div 32 * FC_SIZE + FC0_STATUS)
            (now clockman_never_done + FC_TIMEOUT_NS)
          = Some (clockman_never_done\<lparr>now := 0\<rparr>, True)"
      by (rule idle)
    fix t
    show "\<exists>v. hw_read clockman_never_done t (132 div 32 * FC_SIZE + FC0_STATUS) = Some v
                  \<and> (v AND FC0_STATUS_DONE) = 0"
      using nd by (rule spec)
  qed
  note never = measure_clock_times_out [OF adv', where src = 132 and ref = 50000000
      and d = 40000000]
  from never [THEN conjunct2, THEN conjunct2, THEN conjunct2, THEN conjunct2, THEN conjunct2,
      THEN spec, THEN mp, OF p3]
  have r3: "\<exists>t'. clockman_measure_clock clockman_never_done 50000000 132
              = Some ((fc_program (clockman_never_done\<lparr>now := 0\<rparr>) (132 div 32 * FC_SIZE)
                         50000000 (132 mod 32))\<lparr>now := t'\<rparr>, 0)
            \<and> 0 + FC_TIMEOUT_NS < t' \<and> t' \<le> 0 + FC_TIMEOUT_NS + 40000000" .
  from adv gap run r1 r2 adv' gap' idle nd r3 show ?thesis by (intro conjI)
qed

theorem measure_clock_late_poll_counterexample:
  "now clockman_late = 0
   \<and> \<not> (\<exists>t \<le> FC_TIMEOUT_NS.
           (clockman_read (clockman_late\<lparr>now := t\<rparr>) (132 div 32 * FC_SIZE + FC0_STATUS)
              AND FC0_STATUS_RUNNING) = 0)
   \<and> (\<exists>s'. clockman_measure_clock clockman_late 50000000 132 = Some (s', 50000)
            \<and> now s' = 120000000)"
proof -
  have n: "now clockman_late = 0"
    by (simp add: clockman_late_def clockman0_def)
  have r: "\<not> (\<exists>t \<le> FC_TIMEOUT_NS.
           (clockman_read (clockman_late\<lparr>now := t\<rparr>) (132 div 32 * FC_SIZE + FC0_STATUS)
              AND FC0_STATUS_RUNNING) = 0)"
    by (simp add: clockman_late_def clockman0_def clockman_read_def FC_SIZE_def FC0_STATUS_def
        FC0_STATUS_RUNNING_def FC_TIMEOUT_NS_def)
  have m: "\<exists>s'. clockman_measure_clock clockman_late 50000000 132 = Some (s', 50000)
            \<and> now s' = 120000000"
    by (simp add: clockman_measure_clock_def Let_def clockman_late_def clockman0_def
        clockman_read_def cpu_relax_def ktime_after_def FC0_STATUS_RUNNING_def
        FC0_STATUS_DONE_def FC_SIZE_def FC0_STATUS_def FC0_RESULT_def FC_COUNT_def
        FC_TIMEOUT_NS_def fc_program_def fc_disable_def spin_lock_def spin_unlock_def
        clockman_write_def fc_wait_idle.simps fc_wait_done.simps)
  from n r m show ?thesis by blast
qed

section \<open>PLL core: power state\<close>










section \<open>PLL core: round_rate and set_rate\<close>

lemma pll_core_set_rate_ok:
  assumes "parent_rate \<le> rate div 16"
  shows "\<exists>s' c'. rp1_pll_core_set_rate s c rate parent_rate = Inr (s', c')
           \<and> core_cached_rate c' = rp1_pll_core_round_rate rate parent_rate
           \<and> regs_lock s' = False"
proof -
  from assms have "\<not> parent_rate > rate div 16" by (simp add: not_less)
  then show ?thesis
    by (simp add: rp1_pll_core_set_rate_def rp1_pll_core_round_rate_def Let_def
        split: prod.splits)
qed

lemma pll_core_set_rate_bug:
  assumes "parent_rate > rate div 16"
  shows "\<exists>s'. rp1_pll_core_set_rate s c rate parent_rate = Inl (BUG s')"
  using assms
  by (simp add: rp1_pll_core_set_rate_def Let_def split: prod.splits)

text \<open>
  Claim C7 (amended). \<^verbatim>\<open>rp1_pll_core_round_rate\<close> and \<^verbatim>\<open>rp1_pll_core_set_rate\<close> both take
  the achieved rate from \<^verbatim>\<open>get_pll_core_divider\<close>. For every pair with a
  nonzero parent rate that is at most a sixteenth of the target, \<^verbatim>\<open>set_rate\<close>
  returns and the rate it caches is the rate \<^verbatim>\<open>round_rate\<close> returns. For a pair
  whose parent rate exceeds a sixteenth of the target, \<^verbatim>\<open>set_rate\<close> stops at its
  \<^verbatim>\<open>BUG_ON\<close> and caches nothing.
\<close>

theorem pll_core_round_rate_matches_set_rate:
  "(parent_rate \<noteq> 0 \<and> parent_rate \<le> rate div 16 \<longrightarrow>
      (\<exists>s' c'. rp1_pll_core_set_rate s c rate parent_rate = Inr (s', c')
         \<and> core_cached_rate c' = rp1_pll_core_round_rate rate parent_rate))
   \<and> (parent_rate > rate div 16 \<longrightarrow>
      (\<exists>s'. rp1_pll_core_set_rate s c rate parent_rate = Inl (BUG s')))"
  using pll_core_set_rate_ok [of parent_rate rate s c] pll_core_set_rate_bug [of rate parent_rate s c]
  by blast

theorem pll_core_round_rate_matches_set_rate_witness:
  "(50000000 :: ulong) \<noteq> 0 \<and> (50000000 :: ulong) \<le> 1000000000 div 16
   \<and> (\<exists>s' c'. rp1_pll_core_set_rate clockman0 pll_sys_core 1000000000 50000000 = Inr (s', c')
         \<and> core_cached_rate c' = rp1_pll_core_round_rate 1000000000 50000000
         \<and> core_cached_rate c' = 1000000000)"
proof -
  have h: "(50000000 :: ulong) \<noteq> 0 \<and> (50000000 :: ulong) \<le> 1000000000 div 16" by simp
  have r: "rp1_pll_core_round_rate 1000000000 50000000 = 1000000000"
    by (simp add: rp1_pll_core_round_rate_def get_pll_core_divider_def DIV_U64_NEAREST_def
        div_u64_def Let_def)
  from pll_core_round_rate_matches_set_rate [of 50000000 1000000000 clockman0 pll_sys_core] h r
  show ?thesis by auto
qed

theorem pll_core_set_rate_bug_on_counterexample:
  "(50000000 :: ulong) \<noteq> 0
   \<and> rp1_pll_core_round_rate 1000 50000000 = 1001
   \<and> isl (rp1_pll_core_set_rate clockman0 pll_sys_core 1000 50000000)"
  by (simp add: rp1_pll_core_round_rate_def rp1_pll_core_set_rate_def get_pll_core_divider_def
      DIV_U64_NEAREST_def div_u64_def Let_def)

section \<open>Clock leaf: set_parent and the lock\<close>

lemma set_parent_invalid_index:
  assumes "unat index \<ge> num_std_parents data + num_aux_parents data"
  shows "rp1_clock_set_parent s data index = (spin_lock s, Inl EINVAL)"
  using assms by (simp add: rp1_clock_set_parent_def Let_def)

lemma set_parent_valid_index:
  assumes "unat index < num_std_parents data + num_aux_parents data"
  shows "regs_lock (fst (rp1_clock_set_parent s data index)) = False
         \<and> snd (rp1_clock_set_parent s data index) = Inr ()"
  using assms by (simp add: rp1_clock_set_parent_def set_parent_commit_def Let_def)

text \<open>
  Claim C3 (the code at the failing input). \<^verbatim>\<open>clk_sys\<close> declares three parents.
  \<^verbatim>\<open>rp1_clock_set_parent\<close> with index 3 returns \<^verbatim>\<open>-EINVAL\<close> and writes no register,
  but it returns with the register-bank lock still held; with the valid index 2
  it returns with the lock released.
\<close>

theorem set_parent_invalid_index_keeps_lock:
  "rp1_clock_set_parent clockman0 clk_sys_data 3 = (clockman0\<lparr>regs_lock := True\<rparr>, Inl EINVAL)
   \<and> regs_lock (fst (rp1_clock_set_parent clockman0 clk_sys_data 3)) = True
   \<and> regs_lock (fst (rp1_clock_set_parent clockman0 clk_sys_data 2)) = False"
  by (simp add: rp1_clock_set_parent_def set_parent_commit_def Let_def clk_sys_data_def spin_lock_def clockman0_def)

section \<open>Clock leaf: the divider\<close>

lemma choose_div_fails:
  "rate = 0 \<or> rate > parent_rate + drop_bit CLK_DIV_FRAC_BITS parent_rate
     \<Longrightarrow> rp1_clock_choose_div rate parent_rate data = 0"
  by (simp add: rp1_clock_choose_div_def)

text \<open>
  Claim C6 (the code at the failing input). \<^verbatim>\<open>clk_sys\<close> has an integer divider of
  24 bits. For a target of 3051 Hz from a 200 MHz parent the clamped 64-bit divider
  is \<open>65552 * 2^16 = 0x100100000\<close>, but \<^verbatim>\<open>rp1_clock_choose_div\<close> returns a \<^verbatim>\<open>u32\<close>:
  it returns \<open>0x00100000\<close>, the divider 16. For the fractional \<^verbatim>\<open>clk_gp0\<close>, 100 MHz
  from 200 MHz gives \<open>0x20000\<close>, and a target of 0 gives 0.
\<close>

theorem choose_div_truncates_to_u32:
  "rp1_clock_choose_div 3051 200000000 clk_sys_data = 0x00100000
   \<and> clamp (push_bit CLK_DIV_FRAC_BITS (DIV_U64_NEAREST 200000000 3051))
        (push_bit CLK_DIV_FRAC_BITS 1)
        (push_bit CLK_DIV_FRAC_BITS (ucast (div_int_max clk_sys_data))) = (0x100100000 :: u64)
   \<and> rp1_clock_choose_div 100000000 200000000 clk_gp0_data = 0x20000
   \<and> rp1_clock_choose_div 0 200000000 clk_gp0_data = 0"
  by (simp add: rp1_clock_choose_div_def clk_sys_data_def clk_gp0_data_def CLK_DIV_FRAC_BITS_def
      DIV_U64_NEAREST_def div_u64_def clamp_def DIV_INT_24BIT_MAX_def DIV_INT_16BIT_MAX_def Let_def)

section \<open>PLL secondary output: the divider\<close>

lemma table_all: "\<forall>c \<in> set [0..<32]. table_div pll_sec_div_table c = (if 8 \<le> c \<and> c \<le> 18 then c else 19)"
  by code_simp

lemma sec_table_decode:
  "c < 32 \<Longrightarrow> table_div pll_sec_div_table c = (if 8 \<le> c \<and> c \<le> 18 then c else 19)"
  using table_all by simp

lemma pll_divider_div_range: "8 \<le> pll_divider_div rate parent_rate \<and> pll_divider_div rate parent_rate \<le> 19"
  by (auto simp add: pll_divider_div_def clamp_def Let_def min_def max_def)

lemma unat_div_round_up:
  assumes "rate \<noteq> 0" "rate < 2 ^ 32" "parent_rate < 2 ^ 32"
  shows "unat (DIV_ROUND_UP_ULL parent_rate rate) = (unat parent_rate + unat rate - 1) div unat rate"
proof -
  have r: "unat rate < 2 ^ 32" and p: "unat parent_rate < 2 ^ 32" and r0: "0 < unat rate"
    using assms by (simp_all add: word_less_nat_alt unat_gt_0)
  have "unat (parent_rate + rate) = unat parent_rate + unat rate"
    using r p by (simp add: unat_add_lem [THEN iffD1])
  moreover have "1 \<le> parent_rate + rate"
    using r0 calculation by (simp add: word_le_nat_alt)
  ultimately have "unat (parent_rate + rate - 1) = unat parent_rate + unat rate - 1"
    by (simp add: unat_sub)
  then show ?thesis by (simp add: DIV_ROUND_UP_ULL_def unat_div)
qed

lemma unat_ucast_u32: "unat x < 2 ^ 32 \<Longrightarrow> unat (ucast (x::u64) :: u32) = unat x"
  by (simp add: unsigned_ucast_eq take_bit_nat_eq_self)

lemma unat_clamp: "unat (clamp x lo hi) = min (max (unat x) (unat lo)) (unat hi)"
  by (simp add: clamp_def min_def max_def word_le_nat_alt)

lemma pll_divider_div_eq:
  assumes "rate \<noteq> 0" "rate < 2 ^ 32" "parent_rate < 2 ^ 32"
  shows "unat (pll_divider_div rate parent_rate)
         = min (max ((unat parent_rate + unat rate - 1) div unat rate) 8) 19"
proof -
  have r: "unat rate < 2 ^ 32" and p: "unat parent_rate < 2 ^ 32" and r0: "0 < unat rate"
    using assms by (simp_all add: word_less_nat_alt unat_gt_0)
  have "(unat parent_rate + unat rate - 1) div unat rate \<le> unat parent_rate"
  proof -
    have "unat parent_rate + unat rate - 1 < unat rate * (unat parent_rate + 1)"
      using r0 by (cases "unat rate") auto
    then have "(unat parent_rate + unat rate - 1) div unat rate < unat parent_rate + 1"
      using r0 by (simp add: less_mult_imp_div_less mult.commute)
    then show ?thesis by simp
  qed
  with p have "(unat parent_rate + unat rate - 1) div unat rate < 2 ^ 32" by simp
  then have "unat (ucast (DIV_ROUND_UP_ULL parent_rate rate) :: u32)
             = (unat parent_rate + unat rate - 1) div unat rate"
    using unat_div_round_up [OF assms] by (simp add: unat_ucast_u32)
  then show ?thesis by (simp add: pll_divider_div_def unat_clamp Let_def)
qed

lemma sec_mask_rst:
  "(x OR PLL_SEC_RST) AND PLL_SEC_DIV_MASK = x AND PLL_SEC_DIV_MASK"
  "(x AND NOT PLL_SEC_RST) AND PLL_SEC_DIV_MASK = x AND PLL_SEC_DIV_MASK"
  "(x OR PLL_SEC_RST) AND PLL_SEC_RST \<noteq> 0"
proof -
  have disjoint: "PLL_SEC_RST AND PLL_SEC_DIV_MASK = 0"
    and keep: "NOT PLL_SEC_RST AND PLL_SEC_DIV_MASK = PLL_SEC_DIV_MASK"
    and nz: "PLL_SEC_RST \<noteq> 0"
    by (simp_all add: PLL_SEC_RST_def PLL_SEC_DIV_MASK_def)
  have "(x OR PLL_SEC_RST) AND PLL_SEC_DIV_MASK
        = (x AND PLL_SEC_DIV_MASK) OR (PLL_SEC_RST AND PLL_SEC_DIV_MASK)"
    by (simp add: bit.conj_disj_distrib2)
  then show "(x OR PLL_SEC_RST) AND PLL_SEC_DIV_MASK = x AND PLL_SEC_DIV_MASK"
    by (simp add: disjoint)
  have "(x AND NOT PLL_SEC_RST) AND PLL_SEC_DIV_MASK = x AND (NOT PLL_SEC_RST AND PLL_SEC_DIV_MASK)"
    by (simp add: and.assoc)
  then show "(x AND NOT PLL_SEC_RST) AND PLL_SEC_DIV_MASK = x AND PLL_SEC_DIV_MASK"
    by (simp add: keep)
  have "(x OR PLL_SEC_RST) AND PLL_SEC_RST = PLL_SEC_RST"
    by (rule bit_word_eqI) (auto simp add: bit_simps)
  with nz show "(x OR PLL_SEC_RST) AND PLL_SEC_RST \<noteq> 0" by simp
qed

lemma pll_divider_set_rate_log:
  assumes "rp1_pll_divider_set_rate s d ref rate parent_rate = Some s'"
  shows "\<exists>rest. wlog s' = wlog s @
           [(pll_ctrl_reg d,
             set_register_field (clockman_read s (pll_ctrl_reg d)) (pll_divider_div rate parent_rate)
               PLL_SEC_DIV_MASK PLL_SEC_DIV_SHIFT OR PLL_SEC_RST),
            (pll_ctrl_reg d,
             (set_register_field (clockman_read s (pll_ctrl_reg d)) (pll_divider_div rate parent_rate)
               PLL_SEC_DIV_MASK PLL_SEC_DIV_SHIFT OR PLL_SEC_RST) AND NOT PLL_SEC_RST)] @ rest"
proof -
  define v where "v = set_register_field (clockman_read s (pll_ctrl_reg d))
      (pll_divider_div rate parent_rate) PLL_SEC_DIV_MASK PLL_SEC_DIV_SHIFT OR PLL_SEC_RST"
  define s2 where "s2 = spin_unlock (clockman_write (clockman_write (spin_lock s) (pll_ctrl_reg d) v)
      (pll_ctrl_reg d) (v AND NOT PLL_SEC_RST))"
  have rd: "clockman_read (spin_lock s) (pll_ctrl_reg d) = clockman_read s (pll_ctrl_reg d)"
    by (simp add: clockman_read_def split: option.splits)
  have w2: "wlog s2 = wlog s @ [(pll_ctrl_reg d, v), (pll_ctrl_reg d, v AND NOT PLL_SEC_RST)]"
    by (simp add: s2_def)
  from assms have cases: "s' = s2 \<or> (\<exists>r. clockman_measure_clock s2 ref (pll_fc0_src d) = Some (s', r))"
    by (auto simp add: rp1_pll_divider_set_rate_def Let_def rd v_def s2_def split: if_splits)
  then show ?thesis
  proof
    assume "s' = s2"
    with w2 show ?thesis by (simp add: v_def)
  next
    assume "\<exists>r. clockman_measure_clock s2 ref (pll_fc0_src d) = Some (s', r)"
    then obtain r where "clockman_measure_clock s2 ref (pll_fc0_src d) = Some (s', r)" ..
    from measure_appends [OF this] w2 show ?thesis by (auto simp add: v_def)
  qed
qed

lemma pll_divider_set_rate_terminates:
  assumes adv: "\<forall>t. t < relax s t"
  shows "\<exists>s'. rp1_pll_divider_set_rate s d ref rate parent_rate = Some s'"
proof -
  define v where "v = set_register_field (clockman_read (spin_lock s) (pll_ctrl_reg d))
      (pll_divider_div rate parent_rate) PLL_SEC_DIV_MASK PLL_SEC_DIV_SHIFT OR PLL_SEC_RST"
  define s2 where "s2 = spin_unlock (clockman_write (clockman_write (spin_lock s) (pll_ctrl_reg d) v)
      (pll_ctrl_reg d) (v AND NOT PLL_SEC_RST))"
  have "\<forall>t. t < relax s2 t" using adv by (simp add: s2_def)
  from measure_terminates [OF this] obtain y
    where "clockman_measure_clock s2 ref (pll_fc0_src d) = Some y" by blast
  then show ?thesis
    by (simp add: rp1_pll_divider_set_rate_def Let_def v_def s2_def)
qed

text \<open>
  Claim C9 (amended). The secondary divider lies in 8..19. For every nonzero target
  and parent rate below \<open>2^32\<close> Hz, the divisor \<^verbatim>\<open>rp1_pll_divider_set_rate\<close> computes
  is the rounded-up quotient of parent rate by target, clamped to 8..19; whenever
  \<^verbatim>\<open>set_rate\<close> returns, its first two register writes go to the control register:
  the first carries that divisor in the divider field with the reset bit set, the
  second carries the same divisor with the reset bit cleared; \<^verbatim>\<open>set_rate\<close> returns
  whenever the clock moves forward between polls. Every 5-bit code decodes through
  \<^verbatim>\<open>pll_sec_div_table\<close> to a divisor in 8..19: codes 8 to 18 to themselves, all
  others to 19.
\<close>

theorem pll_divider_set_rate_clamps:
  assumes "rate \<noteq> 0" and "rate < 2 ^ 32" and "parent_rate < 2 ^ 32"
  shows "unat (pll_divider_div rate parent_rate)
           = min (max ((unat parent_rate + unat rate - 1) div unat rate) 8) 19
       \<and> (\<forall>s'. rp1_pll_divider_set_rate s d ref rate parent_rate = Some s' \<longrightarrow>
             (\<exists>v rest. wlog s' = wlog s @ [(pll_ctrl_reg d, v), (pll_ctrl_reg d, v AND NOT PLL_SEC_RST)] @ rest
                \<and> (v AND PLL_SEC_RST) \<noteq> 0
                \<and> drop_bit PLL_SEC_DIV_SHIFT (v AND PLL_SEC_DIV_MASK) = pll_divider_div rate parent_rate
                \<and> drop_bit PLL_SEC_DIV_SHIFT ((v AND NOT PLL_SEC_RST) AND PLL_SEC_DIV_MASK)
                    = pll_divider_div rate parent_rate))
       \<and> ((\<forall>t. t < relax s t) \<longrightarrow> (\<exists>s'. rp1_pll_divider_set_rate s d ref rate parent_rate = Some s'))
       \<and> (\<forall>c < 32. 8 \<le> table_div pll_sec_div_table c \<and> table_div pll_sec_div_table c \<le> 19
             \<and> table_div pll_sec_div_table c = (if 8 \<le> c \<and> c \<le> 18 then c else 19))"
proof (intro conjI allI impI)
  show "unat (pll_divider_div rate parent_rate)
           = min (max ((unat parent_rate + unat rate - 1) div unat rate) 8) 19"
    by (rule pll_divider_div_eq [OF assms])
next
  fix s'
  assume "rp1_pll_divider_set_rate s d ref rate parent_rate = Some s'"
  from pll_divider_set_rate_log [OF this] obtain rest where
    w: "wlog s' = wlog s @
           [(pll_ctrl_reg d,
             set_register_field (clockman_read s (pll_ctrl_reg d)) (pll_divider_div rate parent_rate)
               PLL_SEC_DIV_MASK PLL_SEC_DIV_SHIFT OR PLL_SEC_RST),
            (pll_ctrl_reg d,
             (set_register_field (clockman_read s (pll_ctrl_reg d)) (pll_divider_div rate parent_rate)
               PLL_SEC_DIV_MASK PLL_SEC_DIV_SHIFT OR PLL_SEC_RST) AND NOT PLL_SEC_RST)] @ rest"
    by blast
  have le: "pll_divider_div rate parent_rate \<le> 19"
    using pll_divider_div_range [of rate parent_rate] by simp
  define v where "v = set_register_field (clockman_read s (pll_ctrl_reg d))
      (pll_divider_div rate parent_rate) PLL_SEC_DIV_MASK PLL_SEC_DIV_SHIFT OR PLL_SEC_RST"
  have "wlog s' = wlog s @ [(pll_ctrl_reg d, v), (pll_ctrl_reg d, v AND NOT PLL_SEC_RST)] @ rest"
    using w by (simp add: v_def)
  moreover have "(v AND PLL_SEC_RST) \<noteq> 0"
    unfolding v_def by (rule sec_mask_rst(3))
  moreover have "drop_bit PLL_SEC_DIV_SHIFT (v AND PLL_SEC_DIV_MASK) = pll_divider_div rate parent_rate"
    unfolding v_def by (simp only: sec_mask_rst sec_field_readback [OF le])
  moreover have "drop_bit PLL_SEC_DIV_SHIFT ((v AND NOT PLL_SEC_RST) AND PLL_SEC_DIV_MASK)
        = pll_divider_div rate parent_rate"
    unfolding v_def by (simp only: sec_mask_rst sec_field_readback [OF le])
  ultimately
  show "\<exists>v rest. wlog s' = wlog s @ [(pll_ctrl_reg d, v), (pll_ctrl_reg d, v AND NOT PLL_SEC_RST)] @ rest
                \<and> (v AND PLL_SEC_RST) \<noteq> 0
                \<and> drop_bit PLL_SEC_DIV_SHIFT (v AND PLL_SEC_DIV_MASK) = pll_divider_div rate parent_rate
                \<and> drop_bit PLL_SEC_DIV_SHIFT ((v AND NOT PLL_SEC_RST) AND PLL_SEC_DIV_MASK)
                    = pll_divider_div rate parent_rate"
    by blast
next
  assume "\<forall>t. t < relax s t"
  then show "\<exists>s'. rp1_pll_divider_set_rate s d ref rate parent_rate = Some s'"
    by (rule pll_divider_set_rate_terminates)
next
  fix c :: nat
  assume "c < 32"
  then show "8 \<le> table_div pll_sec_div_table c" "table_div pll_sec_div_table c \<le> 19"
    "table_div pll_sec_div_table c = (if 8 \<le> c \<and> c \<le> 18 then c else 19)"
    by (simp_all add: sec_table_decode)
qed

theorem pll_divider_set_rate_clamps_witness:
  "(100000000 :: ulong) \<noteq> 0 \<and> (100000000 :: ulong) < 2 ^ 32 \<and> (1000000000 :: ulong) < 2 ^ 32
   \<and> unat (pll_divider_div 100000000 1000000000) = 10
   \<and> (\<exists>s'. rp1_pll_divider_set_rate clockman0 pll_sys_sec_data 50000000 100000000 1000000000 = Some s'
        \<and> take 2 (wlog s') = [(0x08014, 0x10a00), (0x08014, 0x00a00)])
   \<and> table_div pll_sec_div_table 7 = 19"
proof -
  have h: "(100000000 :: ulong) \<noteq> 0" "(100000000 :: ulong) < 2 ^ 32" "(1000000000 :: ulong) < 2 ^ 32"
    by simp_all
  have adv: "\<forall>t. t < relax clockman0 t" by (simp add: clockman0_def)
  have dv: "pll_divider_div 100000000 1000000000 = 10"
    by (simp add: pll_divider_div_def clamp_def DIV_ROUND_UP_ULL_def)
  note inst = pll_divider_set_rate_clamps [OF h, of clockman0 pll_sys_sec_data 50000000]
  from inst adv obtain s' where s': "rp1_pll_divider_set_rate clockman0 pll_sys_sec_data 50000000 100000000 1000000000 = Some s'"
    by blast
  with inst obtain v rest where
      w: "wlog s' = wlog clockman0 @ [(pll_ctrl_reg pll_sys_sec_data, v), (pll_ctrl_reg pll_sys_sec_data, v AND NOT PLL_SEC_RST)] @ rest"
    by blast
  from pll_divider_set_rate_log [OF s']
  have "take 2 (wlog s') = [(0x08014, 0x10a00), (0x08014, 0x00a00)]"
    by (auto simp add: dv clockman0_def pll_sys_sec_data_def clockman_read_def set_register_field_def
        PLL_SEC_DIV_MASK_def PLL_SEC_DIV_SHIFT_def PLL_SEC_RST_def)
  moreover from inst have "table_div pll_sec_div_table 7 = 19" by simp
  moreover from inst have "unat (pll_divider_div 100000000 1000000000) = 10" by simp
  ultimately show ?thesis using s' h by blast
qed

theorem pll_divider_div_truncation_counterexample:
  "(1 :: ulong) \<noteq> 0 \<and> pll_divider_div 1 (2 ^ 32) = 8
   \<and> min (max ((unat (2 ^ 32 :: ulong) + unat (1 :: ulong) - 1) div unat (1 :: ulong)) 8) 19 = (19 :: nat)"
  by (simp add: pll_divider_div_def clamp_def DIV_ROUND_UP_ULL_def)

section \<open>PLL primary output: the divider search\<close>

lemma prim_inner_scan:
  "prim_inner rate parent_rate div1 div2 best
     = prim_scan rate parent_rate (map (Pair div1) [div2..<Suc div1]) best"
proof (induction rate parent_rate div1 div2 best rule: prim_inner.induct)
  case (1 rate parent_rate div1 div2 best)
  show ?case
  proof (cases "div2 \<le> div1")
    case True
    define rest where "rest = map (Pair div1) [div2 + 1..<Suc div1]"
    define c where "c = DIV_ROUND_CLOSEST parent_rate (of_nat (div1 * div2))"
    define d where "d = ABS_DIFF c rate"
    from True have "[div2..<Suc div1] = div2 # [Suc div2..<Suc div1]"
      by (intro upt_conv_Cons) simp
    then have l: "map (Pair div1) [div2..<Suc div1] = (div1, div2) # rest"
      by (simp only: rest_def list.map Suc_eq_plus1)
    have pc: "prim_calc parent_rate (div1, div2) = c" "prim_diff rate parent_rate (div1, div2) = d"
      by (simp_all only: prim_calc_def prim_diff_def c_def d_def fst_conv snd_conv)
    have IH1: "c \<noteq> rate \<Longrightarrow> d < snd (snd best) \<Longrightarrow>
        prim_inner rate parent_rate div1 (div2 + 1) (div1, div2, d)
          = prim_scan rate parent_rate rest (div1, div2, d)"
      unfolding rest_def d_def c_def by (rule "1.IH"(1) [OF True refl refl])
    have IH2: "c \<noteq> rate \<Longrightarrow> \<not> d < snd (snd best) \<Longrightarrow>
        prim_inner rate parent_rate div1 (div2 + 1) best
          = prim_scan rate parent_rate rest best"
      unfolding rest_def d_def c_def by (rule "1.IH"(2) [OF True refl refl])
    have "prim_inner rate parent_rate div1 div2 best =
        (if c = rate then ((div1, div2, snd (snd best)), True)
         else if d < snd (snd best)
           then prim_inner rate parent_rate div1 (div2 + 1) (div1, div2, d)
         else prim_inner rate parent_rate div1 (div2 + 1) best)"
      using True by (subst prim_inner.simps) (simp only: c_def d_def Let_def if_True)
    also have "\<dots> = prim_scan rate parent_rate ((div1, div2) # rest) best"
      using IH1 IH2 by (simp add: pc)
    finally show ?thesis by (simp only: l)
  next
    case False
    then show ?thesis by (subst prim_inner.simps) simp
  qed
qed

lemma prim_scan_append:
  "prim_scan rate parent_rate (xs @ ys) best =
     (case prim_scan rate parent_rate xs best of
        (b, True) \<Rightarrow> (b, True)
      | (b, False) \<Rightarrow> prim_scan rate parent_rate ys b)"
  by (induction xs arbitrary: best) auto

lemma prim_outer_scan:
  "prim_outer rate parent_rate div1 best
     = fst (prim_scan rate parent_rate
              (concat (map (\<lambda>a. map (Pair a) [1..<Suc a]) [div1..<8])) best)"
proof (induction rate parent_rate div1 best rule: prim_outer.induct)
  case (1 rate parent_rate div1 best)
  show ?case
  proof (cases "div1 \<le> 7")
    case True
    define row where "row = map (Pair div1) [1..<Suc div1]"
    define rest where "rest = concat (map (\<lambda>a. map (Pair a) [1..<Suc a]) [div1 + 1..<8])"
    from True have "[div1..<8] = div1 # [Suc div1..<8]"
      by (intro upt_conv_Cons) simp
    then have l: "concat (map (\<lambda>a. map (Pair a) [1..<Suc a]) [div1..<8]) = row @ rest"
      by (simp only: row_def rest_def list.map concat.simps Suc_eq_plus1)
    obtain b fl where sc: "prim_scan rate parent_rate row best = (b, fl)"
      by fastforce
    then have inner: "prim_inner rate parent_rate div1 1 best = (b, fl)"
      by (simp only: prim_inner_scan row_def)
    have step: "prim_outer rate parent_rate div1 best
        = (if fl then b else prim_outer rate parent_rate (div1 + 1) b)"
      using True inner by (subst prim_outer.simps) simp
    show ?thesis
    proof (cases fl)
      case True
      with sc step show ?thesis unfolding l by (simp add: prim_scan_append)
    next
      case False
      from False have "(b, fl) = (b, False)" by simp
      from "1.IH" [OF \<open>div1 \<le> 7\<close> inner [symmetric, unfolded this] refl]
      have "prim_outer rate parent_rate (div1 + 1) b = fst (prim_scan rate parent_rate rest b)"
        unfolding rest_def .
      with sc step False show ?thesis unfolding l by (simp add: prim_scan_append)
    qed
  next
    case False
    then show ?thesis by (subst prim_outer.simps) simp
  qed
qed

lemma prim_scan_exact:
  assumes "find (\<lambda>p. prim_calc parent_rate p = rate) ps = Some p"
  shows "\<exists>d. prim_scan rate parent_rate ps best = ((fst p, snd p, d), True)"
  using assms by (induction ps arbitrary: best) (auto split: if_splits)

lemma prim_scan_closest:
  assumes "find (\<lambda>p. prim_calc parent_rate p = rate) ps = None"
    and "sd = prim_diff rate parent_rate (s1, s2)"
  shows "\<exists>b1 b2. prim_scan rate parent_rate ps (s1, s2, sd)
                    = ((b1, b2, prim_diff rate parent_rate (b1, b2)), False)
           \<and> prim_diff rate parent_rate (b1, b2) \<le> sd
           \<and> (\<forall>p \<in> set ps. prim_diff rate parent_rate (b1, b2) \<le> prim_diff rate parent_rate p)
           \<and> ((b1, b2) = (s1, s2)
               \<or> (\<exists>xs ys. ps = xs @ (b1, b2) # ys
                     \<and> prim_diff rate parent_rate (b1, b2) < sd
                     \<and> (\<forall>p \<in> set xs. prim_diff rate parent_rate (b1, b2) < prim_diff rate parent_rate p)))"
  using assms
proof (induction ps arbitrary: s1 s2 sd)
  case Nil
  then show ?case by simp
next
  case (Cons p ps)
  from Cons.prems have ne: "prim_calc parent_rate p \<noteq> rate"
    and rest: "find (\<lambda>p. prim_calc parent_rate p = rate) ps = None"
    by (auto split: if_splits)
  show ?case
  proof (cases "prim_diff rate parent_rate p < sd")
    case True
    from Cons.IH [OF rest, of "prim_diff rate parent_rate p" "fst p" "snd p"]
    obtain b1 b2 where
      sc: "prim_scan rate parent_rate ps (fst p, snd p, prim_diff rate parent_rate p)
             = ((b1, b2, prim_diff rate parent_rate (b1, b2)), False)"
      and le: "prim_diff rate parent_rate (b1, b2) \<le> prim_diff rate parent_rate p"
      and mn: "\<forall>q \<in> set ps. prim_diff rate parent_rate (b1, b2) \<le> prim_diff rate parent_rate q"
      and pos: "(b1, b2) = (fst p, snd p)
               \<or> (\<exists>xs ys. ps = xs @ (b1, b2) # ys
                     \<and> prim_diff rate parent_rate (b1, b2) < prim_diff rate parent_rate p
                     \<and> (\<forall>q \<in> set xs. prim_diff rate parent_rate (b1, b2) < prim_diff rate parent_rate q))"
      by auto
    have lt: "prim_diff rate parent_rate (b1, b2) < sd" using le True by simp
    have "\<exists>xs ys. p # ps = xs @ (b1, b2) # ys
                     \<and> prim_diff rate parent_rate (b1, b2) < sd
                     \<and> (\<forall>q \<in> set xs. prim_diff rate parent_rate (b1, b2) < prim_diff rate parent_rate q)"
    proof (rule disjE [OF pos])
      assume "(b1, b2) = (fst p, snd p)"
      then have "p # ps = [] @ (b1, b2) # ps" by simp
      with lt show ?thesis by fastforce
    next
      assume "\<exists>xs ys. ps = xs @ (b1, b2) # ys
                     \<and> prim_diff rate parent_rate (b1, b2) < prim_diff rate parent_rate p
                     \<and> (\<forall>q \<in> set xs. prim_diff rate parent_rate (b1, b2) < prim_diff rate parent_rate q)"
      then obtain xs ys where "ps = xs @ (b1, b2) # ys"
        and "prim_diff rate parent_rate (b1, b2) < prim_diff rate parent_rate p"
        and "\<forall>q \<in> set xs. prim_diff rate parent_rate (b1, b2) < prim_diff rate parent_rate q"
        by blast
      then have "p # ps = (p # xs) @ (b1, b2) # ys
            \<and> (\<forall>q \<in> set (p # xs). prim_diff rate parent_rate (b1, b2) < prim_diff rate parent_rate q)"
        by simp
      with lt show ?thesis by blast
    qed
    with sc le mn lt True ne show ?thesis
      by (intro exI [of _ b1] exI [of _ b2]) (auto simp add: less_imp_le)
  next
    case False
    from Cons.IH [OF rest Cons.prems(2)]
    obtain b1 b2 where
      sc: "prim_scan rate parent_rate ps (s1, s2, sd)
             = ((b1, b2, prim_diff rate parent_rate (b1, b2)), False)"
      and le: "prim_diff rate parent_rate (b1, b2) \<le> sd"
      and mn: "\<forall>q \<in> set ps. prim_diff rate parent_rate (b1, b2) \<le> prim_diff rate parent_rate q"
      and pos: "(b1, b2) = (s1, s2)
               \<or> (\<exists>xs ys. ps = xs @ (b1, b2) # ys
                     \<and> prim_diff rate parent_rate (b1, b2) < sd
                     \<and> (\<forall>q \<in> set xs. prim_diff rate parent_rate (b1, b2) < prim_diff rate parent_rate q))"
      by auto
    from False have ge: "sd \<le> prim_diff rate parent_rate p" by simp
    have pos': "(b1, b2) = (s1, s2)
               \<or> (\<exists>xs ys. p # ps = xs @ (b1, b2) # ys
                     \<and> prim_diff rate parent_rate (b1, b2) < sd
                     \<and> (\<forall>q \<in> set xs. prim_diff rate parent_rate (b1, b2) < prim_diff rate parent_rate q))"
    proof (rule disjE [OF pos])
      assume "(b1, b2) = (s1, s2)"
      then show ?thesis by simp
    next
      assume "\<exists>xs ys. ps = xs @ (b1, b2) # ys
                     \<and> prim_diff rate parent_rate (b1, b2) < sd
                     \<and> (\<forall>q \<in> set xs. prim_diff rate parent_rate (b1, b2) < prim_diff rate parent_rate q)"
      then obtain xs ys where "ps = xs @ (b1, b2) # ys"
        and lt: "prim_diff rate parent_rate (b1, b2) < sd"
        and "\<forall>q \<in> set xs. prim_diff rate parent_rate (b1, b2) < prim_diff rate parent_rate q"
        by blast
      with ge have "p # ps = (p # xs) @ (b1, b2) # ys
            \<and> (\<forall>q \<in> set (p # xs). prim_diff rate parent_rate (b1, b2) < prim_diff rate parent_rate q)"
        by auto
      with lt show ?thesis by blast
    qed
    from le ge have "prim_diff rate parent_rate (b1, b2) \<le> prim_diff rate parent_rate p" by simp
    with sc le mn pos' False ne show ?thesis
      by (intro exI [of _ b1] exI [of _ b2]) auto
  qed
qed

lemma prim_pairs_eq:
  "prim_pairs = [(1, 1), (2, 1), (2, 2), (3, 1), (3, 2), (3, 3), (4, 1), (4, 2), (4, 3), (4, 4),
                 (5, 1), (5, 2), (5, 3), (5, 4), (5, 5), (6, 1), (6, 2), (6, 3), (6, 4), (6, 5),
                 (6, 6), (7, 1), (7, 2), (7, 3), (7, 4), (7, 5), (7, 6), (7, 7)]"
  by code_simp

lemma pll_prim_search_scan:
  "pll_prim_search rate parent_rate =
     (case fst (prim_scan rate parent_rate prim_pairs (7, 7, prim_diff rate parent_rate (7, 7))) of
        (b1, b2, d) \<Rightarrow> (b1, b2))"
  by (simp only: pll_prim_search_def prim_outer_scan prim_pairs_def prim_diff_def prim_calc_def
      Let_def fst_conv snd_conv)

text \<open>
  Claim C5 (amended). \<^verbatim>\<open>get_pll_prim_dividers\<close> visits div1 = 1..7, div2 = 1..div1.
  If some pair's candidate rate equals the target, the first such pair in loop
  order is returned. Otherwise the returned pair achieves the smallest
  \<open>|candidate - target|\<close> of all pairs; it is (7, 7), the pair the search starts
  from, whenever (7, 7) achieves that smallest difference, and else it is the first
  pair in loop order that achieves it (strictly better than (7, 7) and than every
  pair visited before it).
\<close>

theorem pll_prim_dividers_selection:
  "\<exists>b1 b2. pll_prim_search rate parent_rate = (b1, b2)
      \<and> get_pll_prim_dividers rate parent_rate = (of_nat b1, of_nat b2)
      \<and> (\<forall>p. find (\<lambda>p. prim_calc parent_rate p = rate) prim_pairs = Some p \<longrightarrow> (b1, b2) = p)
      \<and> (find (\<lambda>p. prim_calc parent_rate p = rate) prim_pairs = None \<longrightarrow>
            (\<forall>p \<in> set prim_pairs.
               prim_diff rate parent_rate (b1, b2) \<le> prim_diff rate parent_rate p)
          \<and> ((b1, b2) = (7, 7)
             \<or> (\<exists>xs ys. prim_pairs = xs @ (b1, b2) # ys
                   \<and> prim_diff rate parent_rate (b1, b2) < prim_diff rate parent_rate (7, 7)
                   \<and> (\<forall>p \<in> set xs.
                        prim_diff rate parent_rate (b1, b2) < prim_diff rate parent_rate p))))"
proof (cases "find (\<lambda>p. prim_calc parent_rate p = rate) prim_pairs")
  case None
  from prim_scan_closest [OF None refl, of 7 7]
  obtain b1 b2 where
    sc: "prim_scan rate parent_rate prim_pairs (7, 7, prim_diff rate parent_rate (7, 7))
           = ((b1, b2, prim_diff rate parent_rate (b1, b2)), False)"
    and mn: "\<forall>p \<in> set prim_pairs.
               prim_diff rate parent_rate (b1, b2) \<le> prim_diff rate parent_rate p"
    and pos: "(b1, b2) = (7, 7)
             \<or> (\<exists>xs ys. prim_pairs = xs @ (b1, b2) # ys
                   \<and> prim_diff rate parent_rate (b1, b2) < prim_diff rate parent_rate (7, 7)
                   \<and> (\<forall>p \<in> set xs.
                        prim_diff rate parent_rate (b1, b2) < prim_diff rate parent_rate p))"
    by blast
  from sc have s: "pll_prim_search rate parent_rate = (b1, b2)"
    by (simp add: pll_prim_search_scan)
  then have "get_pll_prim_dividers rate parent_rate = (of_nat b1, of_nat b2)"
    by (simp add: get_pll_prim_dividers_def)
  with s mn pos None show ?thesis by auto
next
  case (Some p)
  obtain a b where p: "p = (a, b)" by (cases p)
  from prim_scan_exact [OF Some, of "(7, 7, prim_diff rate parent_rate (7, 7))"] p obtain d where
    "prim_scan rate parent_rate prim_pairs (7, 7, prim_diff rate parent_rate (7, 7))
       = ((a, b, d), True)"
    by auto
  then have s: "pll_prim_search rate parent_rate = (a, b)"
    by (simp add: pll_prim_search_scan)
  then have "get_pll_prim_dividers rate parent_rate = (of_nat a, of_nat b)"
    by (simp add: get_pll_prim_dividers_def)
  with s Some p show ?thesis by (intro exI [of _ a] exI [of _ b]) simp
qed

theorem pll_prim_dividers_selection_witness:
  "find (\<lambda>p. prim_calc 1000 p = 300) prim_pairs = None
   \<and> pll_prim_search 300 1000 = (3, 1)
   \<and> list_all (\<lambda>p. prim_diff 300 1000 (3, 1) \<le> prim_diff 300 1000 p) prim_pairs
   \<and> find (\<lambda>p. prim_calc 1000000000 p = 166666667) prim_pairs = Some (3, 2)
   \<and> pll_prim_search 166666667 1000000000 = (3, 2)"
proof -
  have n: "find (\<lambda>p. prim_calc 1000 p = 300) prim_pairs = None"
    by code_simp
  have s: "pll_prim_search 300 1000 = (3, 1)"
    by code_simp
  have e: "find (\<lambda>p. prim_calc 1000000000 p = 166666667) prim_pairs = Some (3, 2)"
    by code_simp
  from pll_prim_dividers_selection [of 300 1000] n s
  have "\<forall>p \<in> set prim_pairs. prim_diff 300 1000 (3, 1) \<le> prim_diff 300 1000 p"
    by auto
  then have "list_all (\<lambda>p. prim_diff 300 1000 (3, 1) \<le> prim_diff 300 1000 p) prim_pairs"
    by (simp add: list_all_iff)
  moreover from pll_prim_dividers_selection [of 166666667 1000000000] e
  have "pll_prim_search 166666667 1000000000 = (3, 2)"
    by auto
  ultimately show ?thesis using n s e by blast
qed

theorem pll_prim_dividers_seed_tie_counterexample:
  "get_pll_prim_dividers 91 4116 = (7, 7)
   \<and> find (\<lambda>p. prim_calc 4116 p = 91) prim_pairs = None
   \<and> prim_diff 91 4116 (7, 6) = prim_diff 91 4116 (7, 7)
   \<and> list_all (\<lambda>p. prim_diff 91 4116 (7, 6) \<le> prim_diff 91 4116 p) prim_pairs"
  by code_simp

section \<open>Coordinated PLL-chain retune: the VCO search\<close>

lemma core_inner_Some:
  "core_inner t m p c = Some (c', r) \<Longrightarrow>
     c \<le> c' \<and> c' \<le> 256 \<and> r = vco t c' p \<and> m \<le> r
     \<and> (\<forall>k. c \<le> k \<and> k < c' \<longrightarrow> vco t k p < m)"
proof (induction t m p c rule: core_inner.induct)
  case (1 t m p c)
  show ?case
  proof (cases "c \<le> 256")
    case True
    show ?thesis
    proof (cases "m \<le> vco t c p")
      case True
      with \<open>c \<le> 256\<close> "1.prems" show ?thesis
        by (subst (asm) core_inner.simps) (auto simp add: vco_def Let_def)
    next
      case False
      with \<open>c \<le> 256\<close> "1.prems" have rec: "core_inner t m p (c + 1) = Some (c', r)"
        by (subst (asm) core_inner.simps) (simp add: vco_def Let_def)
      from False have nb: "\<not> m \<le> t * of_nat c * of_nat p" by (simp add: vco_def)
      from "1.IH" [OF \<open>c \<le> 256\<close> refl nb rec]
      have ih: "c + 1 \<le> c' \<and> c' \<le> 256 \<and> r = vco t c' p \<and> m \<le> r
         \<and> (\<forall>k. c + 1 \<le> k \<and> k < c' \<longrightarrow> vco t k p < m)" .
      have "\<forall>k. c \<le> k \<and> k < c' \<longrightarrow> vco t k p < m"
      proof (intro allI impI)
        fix k assume k: "c \<le> k \<and> k < c'"
        show "vco t k p < m"
        proof (cases "k = c")
          case True
          with False show ?thesis by simp
        next
          case False
          with k ih show ?thesis by simp
        qed
      qed
      with ih show ?thesis by auto
    qed
  next
    case False
    with "1.prems" show ?thesis by (subst (asm) core_inner.simps) simp
  qed
qed

lemma core_inner_None:
  "core_inner t m p c = None \<Longrightarrow> \<forall>k. c \<le> k \<and> k \<le> 256 \<longrightarrow> vco t k p < m"
proof (induction t m p c rule: core_inner.induct)
  case (1 t m p c)
  show ?case
  proof (cases "c \<le> 256")
    case True
    from True "1.prems" have nb: "\<not> m \<le> t * of_nat c * of_nat p"
      by (subst (asm) core_inner.simps) (auto simp add: Let_def split: if_splits)
    with True "1.prems" have rec: "core_inner t m p (c + 1) = None"
      by (subst (asm) core_inner.simps) (simp add: Let_def)
    from "1.IH" [OF True refl nb rec]
    have ih: "\<forall>k. c + 1 \<le> k \<and> k \<le> 256 \<longrightarrow> vco t k p < m" .
    show ?thesis
    proof (intro allI impI)
      fix k assume k: "c \<le> k \<and> k \<le> 256"
      show "vco t k p < m"
      proof (cases "k = c")
        case True
        with nb show ?thesis by (simp add: vco_def)
      next
        case False
        with k ih show ?thesis by simp
      qed
    qed
  next
    case False
    then show ?thesis by auto
  qed
qed

lemma core_outer_inv:
  "core_outer t m ps best = (b, bp, bc) \<Longrightarrow>
     b \<le> fst best
     \<and> (\<forall>p \<in> set ps. \<forall>c r. core_inner t m p 1 = Some (c, r) \<longrightarrow> b \<le> r)
     \<and> ((b, bp, bc) = best \<or> (bp \<in> set ps \<and> core_inner t m bp 1 = Some (bc, b) \<and> b < fst best))"
proof (induction ps arbitrary: best)
  case Nil
  then show ?case by simp
next
  case (Cons p ps)
  show ?case
  proof (cases "core_inner t m p 1")
    case None
    with Cons.prems have "core_outer t m ps best = (b, bp, bc)" by simp
    from Cons.IH [OF this] None show ?thesis by auto
  next
    case (Some cr)
    obtain c r where cr: "cr = (c, r)" by (cases cr)
    show ?thesis
    proof (cases "r < fst best")
      case True
      with Some cr Cons.prems have "core_outer t m ps (r, p, c) = (b, bp, bc)" by simp
      from Cons.IH [OF this] Some cr True show ?thesis by auto
    next
      case False
      with Some cr Cons.prems have "core_outer t m ps best = (b, bp, bc)" by simp
      from Cons.IH [OF this] Some cr False show ?thesis by auto
    qed
  qed
qed

lemma unat_vco:
  assumes "unat t * 12544 < 2 ^ 64" and "c \<le> 256" and "p \<le> 49"
  shows "unat (vco t c p) = unat t * c * p"
proof -
  have cp: "c * p \<le> 12544" using mult_le_mono [OF assms(2,3)] by simp
  have "unat t * c * p = unat t * (c * p)" by (simp add: mult.assoc)
  also have "\<dots> \<le> unat t * 12544" using cp by (rule mult_le_mono2)
  finally have b2: "unat t * c * p < 2 ^ 64" using assms(1) by (rule le_less_trans)
  have "c \<le> 12544" using assms(2) by simp
  then have "unat t * c \<le> unat t * 12544" by (rule mult_le_mono2)
  then have b1: "unat t * c < 2 ^ 64" using assms(1) by (rule le_less_trans)
  have c: "unat (of_nat c :: ulong) = c" using assms(2) by (simp add: unat_of_nat)
  have p: "unat (of_nat p :: ulong) = p" using assms(3) by (simp add: unat_of_nat)
  have m1: "unat (t * of_nat c) = unat t * c"
    using b1 c by (simp add: unat_mult_lem [THEN iffD1])
  have "unat (t * of_nat c * of_nat p) = unat (t * of_nat c) * unat (of_nat p :: ulong)"
    using b2 m1 p by (intro unat_mult_lem [THEN iffD1]) simp
  then show ?thesis by (simp add: vco_def m1 p)
qed

lemma vco_mono:
  assumes "unat t * 12544 < 2 ^ 64" and "c \<le> c'" and "c' \<le> 256" and "p \<le> 49"
  shows "vco t c p \<le> vco t c' p"
proof -
  have "unat (vco t c p) = unat t * c * p" "unat (vco t c' p) = unat t * c' * p"
    using assms by (simp_all add: unat_vco)
  moreover have "unat t * c * p \<le> unat t * c' * p"
    using assms(2) by (intro mult_le_mono) simp_all
  ultimately show ?thesis by (simp add: word_le_nat_alt)
qed

lemma prim_divs_bound: "p \<in> set prim_divs \<Longrightarrow> p \<le> 49"
  by (auto simp add: prim_divs_def)

lemma core_inner_first:
  assumes nov: "unat t * 12544 < 2 ^ 64" and p: "p \<le> 49"
    and c: "1 \<le> c" "c \<le> 256" and ge: "m \<le> vco t c p"
  shows "\<exists>c0 r0. core_inner t m p 1 = Some (c0, r0) \<and> r0 \<le> vco t c p"
proof (cases "core_inner t m p 1")
  case None
  from core_inner_None [OF None] c have "vco t c p < m" by simp
  with ge show ?thesis by simp
next
  case (Some cr)
  obtain c0 r0 where cr: "cr = (c0, r0)" by (cases cr)
  from core_inner_Some [of t m p 1 c0 r0] Some cr
  have f: "c0 \<le> 256" "r0 = vco t c0 p" "\<forall>k. 1 \<le> k \<and> k < c0 \<longrightarrow> vco t k p < m"
    by simp_all
  have "c0 \<le> c"
  proof (rule ccontr)
    assume "\<not> c0 \<le> c"
    with c f(3) have "vco t c p < m" by simp
    with ge show False by simp
  qed
  from vco_mono [OF nov this c(2) p] f(2) Some cr show ?thesis by simp
qed

lemma scast_small:
  assumes "unat (w :: 32 word) < 2 ^ 31"
  shows "unat (scast w :: 64 word) = unat w"
proof -
  from assms have "w < 2 ^ 31" by (simp add: word_less_nat_alt)
  then have "w AND mask 31 = w" by (rule less_mask_eq)
  then have "bit w 31 = bit (w AND mask 31) 31" by simp
  then have nb: "\<not> bit w 31" by (simp add: bit_simps)
  have "(scast w :: 64 word) = ucast w"
  proof (rule bit_word_eqI)
    fix n assume "n < LENGTH(64)"
    show "bit (scast w :: 64 word) n = bit (ucast w :: 64 word) n"
    proof (cases "n < 31")
      case True
      then show ?thesis by (simp add: bit_simps min_def)
    next
      case False
      then have "bit w n \<longrightarrow> n = 31" by (auto dest: bit_imp_le_length)
      with False nb show ?thesis by (auto simp add: bit_simps min_def)
    qed
  qed
  then show ?thesis
    by (simp add: unsigned_ucast_eq take_bit_nat_eq_self
        order_less_trans [OF assms])
qed

text \<open>Below the 2.4 GHz ceiling and with a reference above 18.75 MHz the feedback
  divisor is below \<open>2^31\<close>, no intermediate value wraps or changes sign, and the
  re-derived rate is the divisor rounded to 24 fractional bits, multiplied back and
  rounded.\<close>

lemma core_rederive_closed:
  assumes b: "unat best < 2400000000" and x: "18750000 < unat xosc_rate"
  shows "unat (core_rederive xosc_rate best)
         = (unat xosc_rate * ((unat best * 2 ^ 24 + unat xosc_rate div 2) div unat xosc_rate)
              + 2 ^ 23) div 2 ^ 24"
proof -
  define X where "X = unat xosc_rate"
  define B where "B = unat best"
  define D where "D = (B * 2 ^ 24 + X div 2) div X"
  define dv where "dv = (push_bit 24 best + xosc_rate div 2) div xosc_rate"
  have X64: "X < 2 ^ 64" unfolding X_def using unsigned_less [of xosc_rate] by simp
  from b have B: "B < 2400000000" by (simp add: B_def)
  then have B24: "B * 2 ^ 24 < 2 ^ 56" by simp
  have u1: "unat (push_bit 24 best) = B * 2 ^ 24"
    using B by (simp add: push_bit_eq_mult unat_mult_lem [THEN iffD1] B_def)
  have u2: "unat (xosc_rate div 2) = X div 2"
    by (simp add: unat_div X_def)
  have "B * 2 ^ 24 + X div 2 < 2 ^ 64" using B24 X64 by simp
  then have u3: "unat (push_bit 24 best + xosc_rate div 2) = B * 2 ^ 24 + X div 2"
    using u1 u2 by (simp add: unat_add_lem [THEN iffD1])
  have udv: "unat dv = D"
    by (simp add: dv_def D_def unat_div u3 X_def)
  have DX: "D * X \<le> B * 2 ^ 24 + X div 2"
    unfolding D_def by simp
  have D31: "D < 2 ^ 31"
  proof (rule ccontr)
    assume "\<not> D < 2 ^ 31"
    then have "2 ^ 31 \<le> D" by simp
    then have "2 ^ 31 * X \<le> D * X" by (rule mult_le_mono1)
    with DX have "2 ^ 31 * X \<le> B * 2 ^ 24 + X div 2" by (rule order_trans [rotated])
    moreover have "X div 2 \<le> X" by simp
    ultimately have "(2 ^ 31 - 1) * X \<le> B * 2 ^ 24" by (simp add: algebra_simps)
    moreover from x have "(2 ^ 31 - 1) * 18750001 \<le> (2 ^ 31 - 1) * X"
      unfolding X_def by (intro mult_le_mono2) simp
    ultimately have "(2 ^ 31 - 1) * 18750001 \<le> B * 2 ^ 24" by simp
    with B show False by simp
  qed
  define div_int where "div_int = (ucast (drop_bit 24 dv) :: 32 word)"
  define div_frac where "div_frac = (ucast (dv mod push_bit 24 1) :: 32 word)"
  have int7: "D div 2 ^ 24 < 2 ^ 7" using D31 by (simp add: less_mult_imp_div_less)
  have d1: "unat (drop_bit 24 dv) = D div 2 ^ 24"
    unfolding unat_drop_bit_eq udv by (simp add: drop_bit_eq_div)
  have ui: "unat div_int = D div 2 ^ 24"
  proof -
    have "unat div_int = take_bit LENGTH(32) (unat (drop_bit 24 dv))"
      by (simp only: div_int_def unsigned_ucast_eq)
    also have "\<dots> = take_bit LENGTH(32) (D div 2 ^ 24)"
      by (simp only: d1)
    also have "\<dots> = D div 2 ^ 24"
      using int7 by (simp add: take_bit_nat_eq_self)
    finally show ?thesis .
  qed
  have "D mod 2 ^ 24 < 2 ^ 24" by simp
  then have uf: "unat div_frac = D mod 2 ^ 24"
    by (simp add: div_frac_def unsigned_ucast_eq unat_mod udv take_bit_nat_eq_self)
  have up: "unat (push_bit 24 div_int) = D div 2 ^ 24 * 2 ^ 24"
    using int7 by (simp add: push_bit_eq_mult unat_mult_lem [THEN iffD1] ui)
  have sum: "D div 2 ^ 24 * 2 ^ 24 + D mod 2 ^ 24 = D" by simp
  with D31 have "unat (push_bit 24 div_int) + unat div_frac < 2 ^ 32"
    by (simp add: up uf)
  then have "unat (push_bit 24 div_int + div_frac) = unat (push_bit 24 div_int) + unat div_frac"
    by (simp add: unat_add_lem [THEN iffD1])
  with sum have uw: "unat (push_bit 24 div_int + div_frac) = D" by (simp add: up uf)
  with D31 have us: "unat (scast (push_bit 24 div_int + div_frac) :: 64 word) = D"
    by (simp add: scast_small)
  have XD: "X * D < 2 ^ 64 - 2 ^ 23"
  proof -
    have "X * D \<le> B * 2 ^ 24 + X div 2" using DX by (simp add: mult.commute)
    moreover have "X div 2 < 2 ^ 63" using X64 by simp
    ultimately show ?thesis using B24 by simp
  qed
  then have um: "unat (xosc_rate * scast (push_bit 24 div_int + div_frac)) = X * D"
    using us by (simp add: unat_mult_lem [THEN iffD1] X_def)
  have u23: "unat (push_bit 23 1 :: 64 word) = 2 ^ 23" by simp
  from XD have ua: "unat (xosc_rate * scast (push_bit 24 div_int + div_frac) + push_bit 23 1)
      = X * D + 2 ^ 23"
    using um u23 by (simp add: unat_add_lem [THEN iffD1])
  have "core_rederive xosc_rate best
        = drop_bit 24 (xosc_rate * scast (push_bit 24 div_int + div_frac) + push_bit 23 1)"
    by (simp add: core_rederive_def Let_def dv_def div_int_def div_frac_def)
  then have "unat (core_rederive xosc_rate best)
      = drop_bit 24 (unat (xosc_rate * scast (push_bit 24 div_int + div_frac) + push_bit 23 1))"
    by (simp only: unat_drop_bit_eq)
  then have "unat (core_rederive xosc_rate best) = (X * D + 2 ^ 23) div 2 ^ 24"
    by (simp only: ua drop_bit_eq_div)
  then show ?thesis by (simp add: X_def B_def D_def)
qed

text \<open>
  Claim C4 (amended). For every reference rate and every target below
  \<open>2^64 / 12544\<close> Hz (so that no product \<open>target * secondary * primary\<close> wraps),
  the search of \<^verbatim>\<open>calc_core_pll_rate\<close> ends with \<open>best\<close>, the smallest VCO rate
  \<open>target * secondary * primary\<close> over all primaries of the table and secondaries
  1..256 that reaches 16 times the reference (for its own primary it uses the
  smallest such secondary), or with the initial \<open>2.4 GHz + 1\<close> when it found
  nothing below that. When \<open>best\<close> is below 2.4 GHz and the reference is above
  18.75 MHz the function returns
  \<open>(reference * ((best * 2^24 + reference div 2) div reference) + 2^23) div 2^24\<close>,
  that is \<open>best\<close> re-derived through the feedback divisor rounded to 24 fractional
  bits, which need not equal \<open>best\<close>. When \<open>best\<close> is not below 2.4 GHz, and in
  particular when no combination lies in \<open>[16 * reference, 2.4 GHz)\<close>, it returns 0.
\<close>

theorem calc_core_pll_rate_minimum:
  assumes nov: "unat target_rate * 12544 < 2 ^ 64"
  shows "\<exists>best bp bc. core_search xosc_rate target_rate = (best, bp, bc)
     \<and> calc_core_pll_rate xosc_rate target_rate
         = (if best < core_max then core_rederive xosc_rate best else 0, bp, bc)
     \<and> (\<forall>p \<in> set prim_divs. \<forall>c \<in> {1..256}.
           xosc_rate * 16 \<le> vco target_rate c p \<longrightarrow> best \<le> vco target_rate c p)
     \<and> (best = core_max + 1 \<and> bp = 1 \<and> bc = 1
         \<or> bp \<in> set prim_divs \<and> bc \<in> {1..256} \<and> best = vco target_rate bc bp
           \<and> xosc_rate * 16 \<le> best \<and> best \<le> core_max
           \<and> (\<forall>c. 1 \<le> c \<and> c < bc \<longrightarrow> vco target_rate c bp < xosc_rate * 16))
     \<and> (best < core_max \<and> 18750000 < unat xosc_rate \<longrightarrow>
           unat (fst (calc_core_pll_rate xosc_rate target_rate))
           = (unat xosc_rate * ((unat best * 2 ^ 24 + unat xosc_rate div 2) div unat xosc_rate)
                + 2 ^ 23) div 2 ^ 24)
     \<and> (\<not> best < core_max \<longrightarrow> fst (calc_core_pll_rate xosc_rate target_rate) = 0)
     \<and> ((\<forall>p \<in> set prim_divs. \<forall>c \<in> {1..256}.
            \<not> (xosc_rate * 16 \<le> vco target_rate c p \<and> vco target_rate c p < core_max))
          \<longrightarrow> fst (calc_core_pll_rate xosc_rate target_rate) = 0)"
proof -
  obtain best bp bc where cs: "core_search xosc_rate target_rate = (best, bp, bc)"
    by (cases "core_search xosc_rate target_rate") auto
  then have co: "core_outer target_rate (xosc_rate * 16) prim_divs (core_max + 1, 1, 1) = (best, bp, bc)"
    by (simp add: core_search_def)
  note inv = core_outer_inv [OF co]
  have calc: "calc_core_pll_rate xosc_rate target_rate
         = (if best < core_max then core_rederive xosc_rate best else 0, bp, bc)"
    by (simp add: calc_core_pll_rate_def cs)
  have minimal: "\<forall>p \<in> set prim_divs. \<forall>c \<in> {1..256}.
           xosc_rate * 16 \<le> vco target_rate c p \<longrightarrow> best \<le> vco target_rate c p"
  proof (intro ballI impI)
    fix p c
    assume p: "p \<in> set prim_divs" and c: "c \<in> {1..256}"
      and ge: "xosc_rate * 16 \<le> vco target_rate c p"
    from c have c': "1 \<le> c" "c \<le> 256" by simp_all
    from core_inner_first [OF nov prim_divs_bound [OF p] c' ge]
    obtain c0 r0 where "core_inner target_rate (xosc_rate * 16) p 1 = Some (c0, r0)"
      and "r0 \<le> vco target_rate c p" by blast
    with inv p have "best \<le> r0" by blast
    with \<open>r0 \<le> vco target_rate c p\<close> show "best \<le> vco target_rate c p" by simp
  qed
  have shape: "best = core_max + 1 \<and> bp = 1 \<and> bc = 1
         \<or> bp \<in> set prim_divs \<and> bc \<in> {1..256} \<and> best = vco target_rate bc bp
           \<and> xosc_rate * 16 \<le> best \<and> best \<le> core_max
           \<and> (\<forall>c. 1 \<le> c \<and> c < bc \<longrightarrow> vco target_rate c bp < xosc_rate * 16)"
  proof (cases "(best, bp, bc) = (core_max + 1, 1, 1)")
    case True
    then show ?thesis by simp
  next
    case False
    with inv have bp: "bp \<in> set prim_divs"
      and ci: "core_inner target_rate (xosc_rate * 16) bp 1 = Some (bc, best)"
      and lt: "best < core_max + 1"
      by auto
    from lt have "best \<le> core_max"
      by (simp add: core_max_def word_less_nat_alt word_le_nat_alt)
    with core_inner_Some [OF ci] bp show ?thesis by auto
  qed
  have none: "(\<forall>p \<in> set prim_divs. \<forall>c \<in> {1..256}.
            \<not> (xosc_rate * 16 \<le> vco target_rate c p \<and> vco target_rate c p < core_max))
          \<longrightarrow> fst (calc_core_pll_rate xosc_rate target_rate) = 0"
  proof
    assume no: "\<forall>p \<in> set prim_divs. \<forall>c \<in> {1..256}.
            \<not> (xosc_rate * 16 \<le> vco target_rate c p \<and> vco target_rate c p < core_max)"
    have "\<not> best < core_max"
    proof
      assume lt: "best < core_max"
      then have "best \<noteq> core_max + 1" by (auto simp add: core_max_def)
      with shape have "bp \<in> set prim_divs" "bc \<in> {1..256}" "best = vco target_rate bc bp"
        "xosc_rate * 16 \<le> best" by auto
      with no lt show False by blast
    qed
    then show "fst (calc_core_pll_rate xosc_rate target_rate) = 0" by (simp add: calc)
  qed
  have closed: "best < core_max \<and> 18750000 < unat xosc_rate \<longrightarrow>
           unat (fst (calc_core_pll_rate xosc_rate target_rate))
           = (unat xosc_rate * ((unat best * 2 ^ 24 + unat xosc_rate div 2) div unat xosc_rate)
                + 2 ^ 23) div 2 ^ 24"
  proof
    assume a: "best < core_max \<and> 18750000 < unat xosc_rate"
    then have "unat best < 2400000000"
      by (simp add: core_max_def word_less_nat_alt)
    from core_rederive_closed [OF this] a
    have "unat (core_rederive xosc_rate best)
           = (unat xosc_rate * ((unat best * 2 ^ 24 + unat xosc_rate div 2) div unat xosc_rate)
                + 2 ^ 23) div 2 ^ 24"
      by blast
    with a show "unat (fst (calc_core_pll_rate xosc_rate target_rate))
           = (unat xosc_rate * ((unat best * 2 ^ 24 + unat xosc_rate div 2) div unat xosc_rate)
                + 2 ^ 23) div 2 ^ 24"
      by (simp add: calc)
  qed
  have ceiling: "\<not> best < core_max \<longrightarrow> fst (calc_core_pll_rate xosc_rate target_rate) = 0"
    by (simp add: calc)
  from cs calc minimal shape closed ceiling none show ?thesis by blast
qed

theorem calc_core_pll_rate_minimum_witness:
  "unat (49152000 :: ulong) * 12544 < 2 ^ 64
   \<and> core_search 50000000 49152000 = (884736000, 2, 9)
   \<and> (884736000 :: ulong) < core_max \<and> 18750000 < unat (50000000 :: ulong)
   \<and> calc_core_pll_rate 50000000 49152000 = (core_rederive 50000000 884736000, 2, 9)
   \<and> unat (fst (calc_core_pll_rate 50000000 49152000)) = 884735999
   \<and> list_all (\<lambda>p. list_all (\<lambda>c. 50000000 * 16 \<le> vco 49152000 c p \<longrightarrow>
                                 884736000 \<le> vco 49152000 c p) [1..<257]) prim_divs"
proof -
  have h: "unat (49152000 :: ulong) * 12544 < 2 ^ 64" by simp
  have cs: "core_search 50000000 49152000 = (884736000, 2, 9)" by code_simp
  have lt: "(884736000 :: ulong) < core_max" by (simp add: core_max_def)
  have x: "18750000 < unat (50000000 :: ulong)" by simp
  from calc_core_pll_rate_minimum [OF h, of 50000000] cs
  have c: "calc_core_pll_rate 50000000 49152000 = (core_rederive 50000000 884736000, 2, 9)"
    and m: "\<forall>p \<in> set prim_divs. \<forall>c \<in> {1..256}.
           50000000 * 16 \<le> vco 49152000 c p \<longrightarrow> 884736000 \<le> vco 49152000 c p"
    by (auto simp add: core_max_def)
  from calc_core_pll_rate_minimum [OF h, of 50000000] cs lt x
  have "unat (fst (calc_core_pll_rate 50000000 49152000))
        = (unat (50000000 :: ulong)
             * ((unat (884736000 :: ulong) * 2 ^ 24 + unat (50000000 :: ulong) div 2)
                  div unat (50000000 :: ulong)) + 2 ^ 23) div 2 ^ 24"
    by auto
  then have r: "unat (fst (calc_core_pll_rate 50000000 49152000)) = 884735999"
    by simp
  have "set [1..<257] = {1..256::nat}" by auto
  with m have "list_all (\<lambda>p. list_all (\<lambda>c. 50000000 * 16 \<le> vco 49152000 c p \<longrightarrow>
                                 884736000 \<le> vco 49152000 c p) [1..<257]) prim_divs"
    by (simp add: list_all_iff)
  with h cs lt x c r show ?thesis by (intro conjI)
qed

theorem calc_core_pll_rate_rounding_counterexample:
  "core_search 50000000 49152000 = (884736000, 2, 9)
   \<and> vco 49152000 9 2 = 884736000
   \<and> calc_core_pll_rate 50000000 49152000 = (884735999, 2, 9)
   \<and> core_search 100000000 1199999999 = (2399999998, 2, 1)
   \<and> calc_core_pll_rate 100000000 1199999999 = (2400000000, 2, 1)"
  by code_simp

section \<open>Rate negotiation: the parent scan\<close>

text \<open>What the loop of \<^verbatim>\<open>rp1_clock_determine_rate\<close> leaves in its search state is
  \<open>select_best\<close> run over the calls it makes, so the result of a request on a clock
  that may reparent is read off the list of candidates.\<close>

lemma determine_loop_select:
  "snd (determine_loop fw data hw rate n i gb)
     = select_best rate (cand_trace fw data hw rate n i (fst gb)) (snd gb)"
proof (induction fw data hw rate n i gb rule: determine_loop.induct)
  case (1 fw data hw rate n i gb)
  show ?case
  proof (cases "i < n")
    case False
    then show ?thesis
      by (subst determine_loop.simps, subst cand_trace.simps) simp
  next
    case True
    show ?thesis
    proof (cases "clk_hw_get_parent_by_index fw hw i = None")
      case None: True
      from "1.IH"(1) [OF \<open>i < n\<close> refl None]
      have "snd (determine_loop fw data hw rate n (i + 1) gb)
             = select_best rate (cand_trace fw data hw rate n (i + 1) (fst gb)) (snd gb)" .
      with \<open>i < n\<close> None show ?thesis
        by (subst determine_loop.simps, subst cand_trace.simps) (simp add: Let_def)
    next
      case Some: False
      obtain g' prate calc where ch:
        "rp1_clock_choose_div_and_prate fw (fst gb) data hw i rate = (g', prate, calc)"
        by (cases "rp1_clock_choose_div_and_prate fw (fst gb) data hw i rate") auto
      define parent where "parent = clk_hw_get_parent_by_index fw hw i"
      define d where "d = ABS_DIFF calc rate"
      have tr: "cand_trace fw data hw rate n i (fst gb)
                 = (i, parent, prate, calc) # cand_trace fw data hw rate n (i + 1) g'"
        using \<open>i < n\<close> Some ch by (subst cand_trace.simps) (auto simp add: Let_def parent_def)
      have cd: "cand_diff rate (i, parent, prate, calc) = d"
        by (simp add: cand_diff_def d_def)
      show ?thesis
      proof (cases "d < snd (snd (snd (snd gb)))")
        case lt: True
        show ?thesis
        proof (cases "d = 0")
          case True
          with \<open>i < n\<close> Some ch lt show ?thesis
            by (subst determine_loop.simps) (auto simp add: tr cand_diff_def Let_def parent_def d_def)
        next
          case False
          from "1.IH"(2) [OF \<open>i < n\<close> refl Some ch [symmetric] refl
              lt [unfolded d_def] False [unfolded d_def]]
          have "snd (determine_loop fw data hw rate n (i + 1) (g', (parent, prate, calc, d)))
                = select_best rate (cand_trace fw data hw rate n (i + 1) g') (parent, prate, calc, d)"
            by (simp add: d_def parent_def)
          with \<open>i < n\<close> Some ch lt False show ?thesis
            by (subst determine_loop.simps) (auto simp add: tr cand_diff_def Let_def parent_def d_def)
        qed
      next
        case ge: False
        from "1.IH"(3) [OF \<open>i < n\<close> refl Some ch [symmetric] refl ge [unfolded d_def]]
        have "snd (determine_loop fw data hw rate n (i + 1) (g', snd gb))
              = select_best rate (cand_trace fw data hw rate n (i + 1) g') (snd gb)"
          by (simp add: d_def)
        with \<open>i < n\<close> Some ch ge show ?thesis
          by (subst determine_loop.simps) (auto simp add: tr cand_diff_def Let_def parent_def d_def)
      qed
    qed
  qed
qed

lemma determine_rate_reparent:
  assumes "\<not> no_reparent data"
  shows "snd (rp1_clock_determine_rate fw s g data hw rate) =
           (case select_best rate
                   (cand_trace fw data hw rate (num_std_parents data + num_aux_parents data) 0 g)
                   (None, 0, 0, - 1) of
              (best_parent, best_prate, best_rate, best_rate_diff) \<Rightarrow>
                if best_rate = 0 then Inl EINVAL
                else Inr (best_parent, best_prate, best_rate))"
proof -
  obtain g' b where dl: "determine_loop fw data hw rate
      (num_std_parents data + num_aux_parents data) 0 (g, (None, 0, 0, - 1)) = (g', b)"
    by (meson surj_pair)
  from determine_loop_select [of fw data hw rate "num_std_parents data + num_aux_parents data" 0
      "(g, (None, 0, 0, - 1))"] dl
  have "b = select_best rate
      (cand_trace fw data hw rate (num_std_parents data + num_aux_parents data) 0 g)
      (None, 0, 0, - 1)"
    by simp
  with assms dl show ?thesis
    by (simp add: rp1_clock_determine_rate_def split: prod.splits)
qed

lemma uart_parents:
  "\<not> no_reparent clk_uart_data"
  "num_std_parents clk_uart_data + num_aux_parents clk_uart_data = 9"
  by (simp_all add: clk_uart_data_def)

lemma i2s_parents:
  "\<not> no_reparent clk_i2s_data"
  "num_std_parents clk_i2s_data + num_aux_parents clk_i2s_data = 9"
  by (simp_all add: clk_i2s_data_def)

text \<open>
  Claim C2. For a clock not marked \<^verbatim>\<open>CLK_SET_RATE_NO_REPARENT\<close>,
  \<^verbatim>\<open>rp1_clock_determine_rate\<close> selects the parent candidate whose achievable rate is
  closest to the target and fails only when every candidate yields an achievable
  rate of zero. The code does not do this: a candidate that
  \<^verbatim>\<open>rp1_clock_choose_div_and_prate\<close> rejects with \<^verbatim>\<open>*calc_rate = 0\<close> still enters the
  comparison, as a rate of 0 Hz. For \<^verbatim>\<open>clk_uart\<close> at a target of 48000 Hz, with
  \<^verbatim>\<open>pll_sys_pri_ph\<close> at 100 MHz, \<^verbatim>\<open>pll_video\<close> not running and \<^verbatim>\<open>xosc\<close> at 50 MHz, the
  candidates achieve 392156 Hz, nothing, and 196078 Hz; the rejected one is
  nearest to the target and the request fails with \<^verbatim>\<open>-EINVAL\<close>.
\<close>

theorem determine_rate_fails_with_usable_candidates:
  "\<not> no_reparent clk_uart_data
   \<and> snd (rp1_clock_choose_div_and_prate rp1_framework rp1_globals clk_uart_data hw_clk_uart 0
            48000) = (100000000, 392156)
   \<and> snd (rp1_clock_choose_div_and_prate rp1_framework rp1_globals clk_uart_data hw_clk_uart 1
            48000) = (0, 0)
   \<and> snd (rp1_clock_choose_div_and_prate rp1_framework rp1_globals clk_uart_data hw_clk_uart 2
            48000) = (50000000, 196078)
   \<and> snd (rp1_clock_determine_rate rp1_framework clockman0 rp1_globals clk_uart_data
            hw_clk_uart 48000) = Inl EINVAL"
proof -
  have c0: "snd (rp1_clock_choose_div_and_prate rp1_framework rp1_globals clk_uart_data
              hw_clk_uart 0 48000) = (100000000, 392156)"
    by code_simp
  have c1: "snd (rp1_clock_choose_div_and_prate rp1_framework rp1_globals clk_uart_data
              hw_clk_uart 1 48000) = (0, 0)"
    by code_simp
  have c2: "snd (rp1_clock_choose_div_and_prate rp1_framework rp1_globals clk_uart_data
              hw_clk_uart 2 48000) = (50000000, 196078)"
    by code_simp
  have sb: "select_best 48000
      (cand_trace rp1_framework clk_uart_data hw_clk_uart 48000 9 0 rp1_globals)
      (None, 0, 0, - 1) = (hw_pll_video, 0, 0, 48000)"
    by code_simp
  have r: "snd (rp1_clock_determine_rate rp1_framework clockman0 rp1_globals clk_uart_data
            hw_clk_uart 48000) = Inl EINVAL"
    by (simp add: determine_rate_reparent uart_parents sb)
  from uart_parents(1) c0 c1 c2 r show ?thesis by (intro conjI)
qed

section \<open>Rate negotiation: the overclock guard\<close>

text \<open>On its general path \<^verbatim>\<open>rp1_clock_choose_div_and_prate\<close> never reports a rate above
  \<^verbatim>\<open>max_freq\<close>.\<close>

lemma guard_le_max_freq: "clock_div_and_guard data rate prate \<le> max_freq data"
  by (simp add: clock_div_and_guard_def Let_def not_less)

text \<open>
  Claim C1. \<^verbatim>\<open>rp1_clock_choose_div_and_prate\<close> returns an achievable rate of zero
  whenever the rate recomputed from the rounded divider would exceed the clock's
  \<^verbatim>\<open>max_freq\<close>, so that \<^verbatim>\<open>rp1_clock_determine_rate\<close> never reports a rate above
  \<^verbatim>\<open>max_freq\<close>. The code does not do this for \<^verbatim>\<open>clk_i2s\<close> on parent \<^verbatim>\<open>clk_audio\<close>: the
  chain retune returns before the guard. With \<^verbatim>\<open>xosc\<close> at 50 MHz and a target of
  100 MHz, the \<^verbatim>\<open>xosc\<close> candidate is rejected, the \<^verbatim>\<open>pll_audio\<close> candidate comes back
  with parent rate 400 MHz and rate 100 MHz, where the guard of the general path
  gives 0 for that parent rate, and the request succeeds at 100 MHz although
  \<^verbatim>\<open>max_freq\<close> of \<^verbatim>\<open>clk_i2s\<close> is 50 MHz.
\<close>

theorem determine_rate_i2s_chain_exceeds_max_freq:
  "max_freq clk_i2s_data = 50000000
   \<and> snd (rp1_clock_choose_div_and_prate rp1_framework rp1_globals clk_i2s_data hw_clk_i2s 0
            100000000) = (50000000, 0)
   \<and> snd (rp1_clock_choose_div_and_prate rp1_framework rp1_globals clk_i2s_data hw_clk_i2s 1
            100000000) = (400000000, 100000000)
   \<and> clock_div_and_guard clk_i2s_data 100000000 400000000 = 0
   \<and> snd (rp1_clock_determine_rate rp1_framework clockman0 rp1_globals clk_i2s_data
            hw_clk_i2s 100000000) = Inr (hw_pll_audio, 400000000, 100000000)"
proof -
  have mx: "max_freq clk_i2s_data = 50000000"
    by code_simp
  have c0: "snd (rp1_clock_choose_div_and_prate rp1_framework rp1_globals clk_i2s_data
              hw_clk_i2s 0 100000000) = (50000000, 0)"
    by code_simp
  have c1: "snd (rp1_clock_choose_div_and_prate rp1_framework rp1_globals clk_i2s_data
              hw_clk_i2s 1 100000000) = (400000000, 100000000)"
    by code_simp
  have gd: "clock_div_and_guard clk_i2s_data 100000000 400000000 = 0"
    by code_simp
  have sb: "select_best 100000000
      (cand_trace rp1_framework clk_i2s_data hw_clk_i2s 100000000 9 0 rp1_globals)
      (None, 0, 0, - 1) = (hw_pll_audio, 400000000, 100000000, 0)"
    by code_simp
  have r: "snd (rp1_clock_determine_rate rp1_framework clockman0 rp1_globals clk_i2s_data
            hw_clk_i2s 100000000) = Inr (hw_pll_audio, 400000000, 100000000)"
    by (simp add: determine_rate_reparent i2s_parents sb)
  from mx c0 c1 gd r show ?thesis by (intro conjI)
qed

end
